theory Spec2Isabelle
  imports Complex_Main
begin

section \<open>Strings\<close>

text \<open>
  A JavaScript string is a sequence of UTF-16 code units, and \<open>length\<close>, \<open>split\<close>,
  \<open>endsWith\<close> and \<open>trim\<close> all work on code units. A string is therefore modelled as the
  list of its code units, each a natural number; \<open>js\<close> embeds an ASCII literal.
\<close>

type_synonym jsstring = "nat list"

definition js :: "string \<Rightarrow> jsstring" where
  "js s = map of_char s"

definition endsWith :: "jsstring \<Rightarrow> jsstring \<Rightarrow> bool" where
  "endsWith s suf = (length suf \<le> length s \<and> drop (length s - length suf) s = suf)"

definition startsWith :: "jsstring \<Rightarrow> jsstring \<Rightarrow> bool" where
  "startsWith s pre = (take (length pre) s = pre)"

definition js_includes :: "jsstring \<Rightarrow> nat \<Rightarrow> bool" where
  "js_includes s c = (c \<in> set s)"

text \<open>\<open>s.split(c)\<close> for a separator of one code unit: never the empty list.\<close>

fun js_split :: "nat \<Rightarrow> jsstring \<Rightarrow> jsstring list" where
  "js_split c [] = [[]]"
| "js_split c (x # xs) =
     (if x = c then [] # js_split c xs
      else (case js_split c xs of [] \<Rightarrow> [[x]] | w # ws \<Rightarrow> (x # w) # ws))"

fun js_join :: "jsstring \<Rightarrow> jsstring list \<Rightarrow> jsstring" where
  "js_join sep [] = []"
| "js_join sep [x] = x"
| "js_join sep (x # y # ys) = x @ sep @ js_join sep (y # ys)"

text \<open>
  The code units \<open>trim\<close> strips: ECMAScript's WhiteSpace (tab, VT, FF, the space
  separators, U+FEFF) and LineTerminator (LF, CR, U+2028, U+2029).
\<close>

definition is_white_space :: "nat \<Rightarrow> bool" where
  "is_white_space c =
     (c \<in> set [0x9, 0xA, 0xB, 0xC, 0xD, 0x20, 0xA0, 0x1680, 0x2000, 0x2001, 0x2002, 0x2003,
                0x2004, 0x2005, 0x2006, 0x2007, 0x2008, 0x2009, 0x200A, 0x2028, 0x2029,
                0x202F, 0x205F, 0x3000, 0xFEFF])"

definition trim :: "jsstring \<Rightarrow> jsstring" where
  "trim s = rev (dropWhile is_white_space (rev (dropWhile is_white_space s)))"

text \<open>
  Case mapping. On a string of ASCII code units \<open>toLowerCase\<close> and \<open>toUpperCase\<close> map the
  letters A to Z and a to z and nothing else. On any other string they follow the
  Unicode tables of the engine, which the model takes as a parameter.
\<close>

definition is_ascii :: "jsstring \<Rightarrow> bool" where
  "is_ascii s = list_all (\<lambda>c. c < 128) s"

definition ascii_lower :: "jsstring \<Rightarrow> jsstring" where
  "ascii_lower s = map (\<lambda>c. if 65 \<le> c \<and> c \<le> 90 then c + 32 else c) s"

definition ascii_upper :: "jsstring \<Rightarrow> jsstring" where
  "ascii_upper s = map (\<lambda>c. if 97 \<le> c \<and> c \<le> 122 then c - 32 else c) s"

definition toLowerCase :: "(jsstring \<Rightarrow> jsstring) \<Rightarrow> jsstring \<Rightarrow> jsstring" where
  "toLowerCase unicode s = (if is_ascii s then ascii_lower s else unicode s)"

definition toUpperCase :: "(jsstring \<Rightarrow> jsstring) \<Rightarrow> jsstring \<Rightarrow> jsstring" where
  "toUpperCase unicode s = (if is_ascii s then ascii_upper s else unicode s)"

text \<open>\<open>s.replace(pat, rep)\<close> with a string pattern: the first occurrence only.\<close>

fun replace_first :: "jsstring \<Rightarrow> jsstring \<Rightarrow> jsstring \<Rightarrow> jsstring" where
  "replace_first pat rep [] = (if pat = [] then rep else [])"
| "replace_first pat rep (x # xs) =
     (if startsWith (x # xs) pat then rep @ drop (length pat) (x # xs)
      else x # replace_first pat rep xs)"

text \<open>The decimal numeral of a non-negative integer, as a template literal prints it.\<close>

fun show_nat :: "nat \<Rightarrow> jsstring" where
  "show_nat n = (if n < 10 then [48 + n] else show_nat (n div 10) @ [48 + n mod 10])"

declare show_nat.simps [simp del]

section \<open>Values and objects\<close>

text \<open>
  The values \<open>JSON.parse\<close> and the CSV parser produce. A number is only ever copied or
  tested for being zero, so it is carried as the real number it stands for. An object is
  the list of its
  own enumerable properties in the order \<open>for ... in\<close> visits them: the keys that are
  array indices first, in ascending numeric order, then the other keys in the order of
  their creation.
\<close>

datatype jsval =
    JNull
  | JBool bool
  | JNum real
  | JStr jsstring
  | JArr "jsval list"
  | JObj "(jsstring \<times> jsval) list"

type_synonym obj = "(jsstring \<times> jsval) list"

datatype js_error = TypeError | Failed jsstring

text \<open>
  How an evaluation ends: with a value, with an exception, or outside the model. The
  model follows a property access one step into \<open>Object.prototype\<close>; an evaluation that
  goes on inside a built-in object, an array or a changed prototype chain is \<open>Unmodelled\<close>,
  and nothing is claimed about it.
\<close>

datatype 'a outcome = Ok 'a | Throw js_error | Unmodelled

fun truthy :: "jsval \<Rightarrow> bool" where
  "truthy JNull = False"
| "truthy (JBool b) = b"
| "truthy (JNum n) = (n \<noteq> 0)"
| "truthy (JStr s) = (s \<noteq> [])"
| "truthy (JArr xs) = True"
| "truthy (JObj ps) = True"

definition is_digit :: "nat \<Rightarrow> bool" where
  "is_digit c = (48 \<le> c \<and> c \<le> 57)"

definition digits_val :: "jsstring \<Rightarrow> nat" where
  "digits_val k = fold (\<lambda>c n. 10 * n + (c - 48)) k 0"

text \<open>An array index: the canonical numeral of an integer below \<open>2^32 - 1\<close>.\<close>

definition is_array_index :: "jsstring \<Rightarrow> bool" where
  "is_array_index k =
     (k \<noteq> [] \<and> list_all is_digit k \<and> (k = [48] \<or> hd k \<noteq> 48) \<and> digits_val k < 4294967295)"

fun insert_index :: "jsstring \<Rightarrow> jsval \<Rightarrow> obj \<Rightarrow> obj" where
  "insert_index k v [] = [(k, v)]"
| "insert_index k v ((k', v') # ps) =
     (if is_array_index k' \<and> digits_val k' < digits_val k then (k', v') # insert_index k v ps
      else (k, v) # (k', v') # ps)"

definition replace_own :: "jsstring \<Rightarrow> jsval \<Rightarrow> obj \<Rightarrow> obj" where
  "replace_own k v ps = map (\<lambda>(k', v'). if k' = k then (k', v) else (k', v')) ps"

text \<open>
  Writing an own data property: an existing key keeps its place, a new array index goes
  to its numeric place, any other new key goes last.
\<close>

definition define_own :: "jsstring \<Rightarrow> jsval \<Rightarrow> obj \<Rightarrow> obj" where
  "define_own k v ps =
     (if map_of ps k \<noteq> None then replace_own k v ps
      else if is_array_index k then insert_index k v ps
      else ps @ [(k, v)])"

subsection \<open>The prototype chain\<close>

text \<open>
  Every object the route creates or parses inherits from \<open>Object.prototype\<close>. Its
  built-in properties are eleven methods and the accessor \<open>__proto__\<close>. The properties
  that assignments of this program have added to it are the state \<open>P\<close> the model
  threads through every call: the process keeps them from one request to the next.
\<close>

definition object_prototype_methods :: "jsstring list" where
  "object_prototype_methods =
     [js ''constructor'', js ''__defineGetter__'', js ''__defineSetter__'',
      js ''hasOwnProperty'', js ''__lookupGetter__'', js ''__lookupSetter__'',
      js ''isPrototypeOf'', js ''propertyIsEnumerable'', js ''toString'', js ''valueOf'',
      js ''toLocaleString'']"

definition pristine :: obj where
  "pristine = []"

datatype property = Own jsval | Inherited jsval | PrototypeObject | BuiltinFunction | Undefined

text \<open>\<open>ob[k]\<close> read on an ordinary object with the own properties \<open>ob\<close>.\<close>

definition get_property :: "obj \<Rightarrow> obj \<Rightarrow> jsstring \<Rightarrow> property" where
  "get_property P ob k =
     (case map_of ob k of
        Some v \<Rightarrow> Own v
      | None \<Rightarrow>
          (case map_of P k of
             Some v \<Rightarrow> Inherited v
           | None \<Rightarrow>
               if k = js ''__proto__'' then PrototypeObject
               else if k \<in> set object_prototype_methods then BuiltinFunction
               else Undefined))"

text \<open>
  \<open>ob[k] = v\<close> on an ordinary object. Every inherited property but \<open>__proto__\<close> is a
  writable data property, so the write makes an own property. The setter of \<open>__proto__\<close>
  ignores a boolean, a number and a string, and changes the prototype chain otherwise.
\<close>

definition set_property :: "obj \<Rightarrow> jsstring \<Rightarrow> jsval \<Rightarrow> obj outcome" where
  "set_property ob k v =
     (if map_of ob k = None \<and> k = js ''__proto__'' then
        (case v of JBool b \<Rightarrow> Ok ob | JNum n \<Rightarrow> Ok ob | JStr s \<Rightarrow> Ok ob | _ \<Rightarrow> Unmodelled)
      else Ok (define_own k v ob))"

text \<open>
  \<open>ob.hasOwnProperty(key)\<close> calls whatever the name resolves to: the built-in method
  unless an own or an added inherited property of that name is in the way, and data is
  not callable.
\<close>

definition hasOwnProperty_callable :: "obj \<Rightarrow> obj \<Rightarrow> bool" where
  "hasOwnProperty_callable P ob = (get_property P ob (js ''hasOwnProperty'') = BuiltinFunction)"

text \<open>The inherited enumerable keys \<open>for ... in\<close> visits after the own ones.\<close>

definition inherited_enumerable :: "obj \<Rightarrow> obj \<Rightarrow> jsstring list" where
  "inherited_enumerable P ob = filter (\<lambda>k. map_of ob k = None) (map fst P)"

text \<open>
  What \<open>for ... in\<close> finds on a value itself: the properties of an object, the elements
  of an array, the code units of a string, nothing on the other values.
\<close>

definition own_enumerable :: "jsval \<Rightarrow> obj" where
  "own_enumerable v =
     (case v of
        JObj ps \<Rightarrow> ps
      | JArr xs \<Rightarrow> zip (map show_nat [0..<length xs]) xs
      | JStr s \<Rightarrow> zip (map show_nat [0..<length s]) (map (\<lambda>c. JStr [c]) s)
      | _ \<Rightarrow> [])"

section \<open>The structural transforms\<close>

subsection \<open>flattenObject\<close>

text \<open>\<open>Object.assign(target, source)\<close>: the own properties of the source, written in order.\<close>

fun object_assign :: "obj \<Rightarrow> obj \<Rightarrow> obj outcome" where
  "object_assign target [] = Ok target"
| "object_assign target ((k, v) # rest) =
     (case set_property target k v of
        Ok target' \<Rightarrow> object_assign target' rest
      | Throw e \<Rightarrow> Throw e
      | Unmodelled \<Rightarrow> Unmodelled)"

text \<open>
  \<open>flatten_loop P ob entries prefix flattened\<close> is the \<open>for ... in\<close> loop of
  \<open>flattenObject\<close> over the remaining own entries of the object with own properties
  \<open>ob\<close>; the inherited keys come last and fail the \<open>hasOwnProperty\<close> test. A nested
  object is flattened by the same loop, started on its own entries.
\<close>

text \<open>\<open>prefix ? `${prefix}.${key}` : key\<close>: the empty prefix is falsy.\<close>

definition new_key :: "jsstring \<Rightarrow> jsstring \<Rightarrow> jsstring" where
  "new_key prefix key = (if prefix \<noteq> [] then prefix @ js ''.'' @ key else key)"

fun flatten_loop :: "obj \<Rightarrow> obj \<Rightarrow> obj \<Rightarrow> jsstring \<Rightarrow> obj \<Rightarrow> obj outcome" where
  "flatten_loop P ob [] prefix flattened =
     (if inherited_enumerable P ob \<noteq> [] \<and> \<not> hasOwnProperty_callable P ob then Throw TypeError
      else Ok flattened)"
| "flatten_loop P ob ((key, v) # rest) prefix flattened =
     (if \<not> hasOwnProperty_callable P ob then Throw TypeError
      else
        (let newKey = new_key prefix key in
         case v of
           JObj nested \<Rightarrow>
             (case flatten_loop P nested nested newKey [] of
                Ok sub \<Rightarrow>
                  (case object_assign flattened sub of
                     Ok flattened' \<Rightarrow> flatten_loop P ob rest prefix flattened'
                   | Throw e \<Rightarrow> Throw e
                   | Unmodelled \<Rightarrow> Unmodelled)
              | Throw e \<Rightarrow> Throw e
              | Unmodelled \<Rightarrow> Unmodelled)
         | _ \<Rightarrow>
             (case set_property flattened newKey v of
                Ok flattened' \<Rightarrow> flatten_loop P ob rest prefix flattened'
              | Throw e \<Rightarrow> Throw e
              | Unmodelled \<Rightarrow> Unmodelled)))"

text \<open>
  \<open>flattenObject(obj, prefix)\<close>: \<open>for ... in\<close> does not run on \<open>null\<close>. The recursive call
  of the source, on a nested object, is the inner \<open>flatten_loop\<close> above.
\<close>

definition flattenObject :: "obj \<Rightarrow> jsval \<Rightarrow> jsstring \<Rightarrow> obj outcome" where
  "flattenObject P v prefix =
     (case v of
        JNull \<Rightarrow> Ok []
      | _ \<Rightarrow> flatten_loop P (own_enumerable v) (own_enumerable v) prefix [])"

subsection \<open>unflattenObject\<close>

text \<open>
  The module is an ES module, hence strict code: a write to a property of a primitive
  value throws a TypeError, unless the property is the inherited setter \<open>__proto__\<close>,
  which ignores a primitive receiver.
\<close>

definition assign_on_primitive :: "jsstring list \<Rightarrow> jsstring \<Rightarrow> unit outcome" where
  "assign_on_primitive ks l =
     (if ks \<noteq> [] then Unmodelled
      else if l = js ''__proto__'' then Ok ()
      else Throw TypeError)"

text \<open>
  \<open>Object.prototype[l] = v\<close>. Its own prototype cannot be changed: the setter throws for
  an object and ignores every other value. A write over a built-in method is left
  outside the model.
\<close>

definition prototype_assign :: "obj \<Rightarrow> jsstring \<Rightarrow> jsval \<Rightarrow> obj outcome" where
  "prototype_assign P l v =
     (if map_of P l = None \<and> l = js ''__proto__'' then
        (case v of JObj ps \<Rightarrow> Throw TypeError | JArr xs \<Rightarrow> Throw TypeError | _ \<Rightarrow> Ok P)
      else if l \<in> set object_prototype_methods then Unmodelled
      else Ok (define_own l v P))"

text \<open>
  Where \<open>current = current[k]\<close> lands after \<open>if (!current[k]) current[k] = {}\<close>: in
  a fresh object when the property read is falsy, in the own nested object, on a truthy
  primitive value, on \<open>Object.prototype\<close>, or beyond the model (an array, a built-in
  function, an object reached through an added inherited property).
\<close>

datatype landing = Create | Descend obj | OnPrimitive | OnPrototype | Beyond

definition landing_of :: "property \<Rightarrow> landing" where
  "landing_of p =
     (case p of
        Undefined \<Rightarrow> Create
      | Own c \<Rightarrow>
          (if \<not> truthy c then Create
           else (case c of JObj child \<Rightarrow> Descend child | JArr xs \<Rightarrow> Beyond | _ \<Rightarrow> OnPrimitive))
      | Inherited c \<Rightarrow>
          (if \<not> truthy c then Create
           else (case c of JObj child \<Rightarrow> Beyond | JArr xs \<Rightarrow> Beyond | _ \<Rightarrow> OnPrimitive))
      | PrototypeObject \<Rightarrow> OnPrototype
      | BuiltinFunction \<Rightarrow> Beyond)"

text \<open>The object \<open>current\<close>, with its property \<open>k\<close> as the rest of the walk left it.\<close>

definition attach :: "jsstring \<Rightarrow> obj \<Rightarrow> (obj \<times> obj) outcome \<Rightarrow> (obj \<times> obj) outcome" where
  "attach k current r =
     (case r of
        Ok (child, P') \<Rightarrow> Ok (replace_own k (JObj child) current, P')
      | Throw e \<Rightarrow> Throw e
      | Unmodelled \<Rightarrow> Unmodelled)"

text \<open>
  \<open>walk P current ks l v\<close> is the inner loop of \<open>unflattenObject\<close> over the segments
  \<open>ks\<close> (all but the last) followed by the assignment to the last segment \<open>l\<close>. It
  returns the object \<open>current\<close> stood for at the start, as the walk leaves it, and the
  properties added to \<open>Object.prototype\<close>.
\<close>

fun walk :: "obj \<Rightarrow> obj \<Rightarrow> jsstring list \<Rightarrow> jsstring \<Rightarrow> jsval \<Rightarrow> (obj \<times> obj) outcome" where
  "walk P current [] l v =
     (case set_property current l v of
        Ok current' \<Rightarrow> Ok (current', P)
      | Throw e \<Rightarrow> Throw e
      | Unmodelled \<Rightarrow> Unmodelled)"
| "walk P current (k # ks) l v =
     (case landing_of (get_property P current k) of
        Create \<Rightarrow>
          (case set_property current k (JObj []) of
             Ok current' \<Rightarrow> attach k current' (walk P [] ks l v)
           | Throw e \<Rightarrow> Throw e
           | Unmodelled \<Rightarrow> Unmodelled)
      | Descend child \<Rightarrow> attach k current (walk P child ks l v)
      | OnPrimitive \<Rightarrow>
          (case assign_on_primitive ks l of
             Ok u \<Rightarrow> Ok (current, P)
           | Throw e \<Rightarrow> Throw e
           | Unmodelled \<Rightarrow> Unmodelled)
      | OnPrototype \<Rightarrow>
          (if ks \<noteq> [] then Unmodelled
           else
             (case prototype_assign P l v of
                Ok P' \<Rightarrow> Ok (current, P')
              | Throw e \<Rightarrow> Throw e
              | Unmodelled \<Rightarrow> Unmodelled))
      | Beyond \<Rightarrow> Unmodelled)"

text \<open>
  The \<open>for ... in\<close> loop of \<open>unflattenObject\<close> over the remaining own entries of the
  object \<open>ob\<close>. An exception leaves \<open>Object.prototype\<close> as the earlier keys made it.
\<close>

fun unflatten_loop :: "obj \<Rightarrow> obj \<Rightarrow> obj \<Rightarrow> obj \<Rightarrow> obj outcome \<times> obj" where
  "unflatten_loop P ob [] result =
     (if inherited_enumerable P ob \<noteq> [] \<and> \<not> hasOwnProperty_callable P ob then (Throw TypeError, P)
      else (Ok result, P))"
| "unflatten_loop P ob ((key, v) # rest) result =
     (if \<not> hasOwnProperty_callable P ob then (Throw TypeError, P)
      else
        (let keys = js_split 46 key in
         case walk P result (butlast keys) (last keys) v of
           Ok (result', P') \<Rightarrow> unflatten_loop P' ob rest result'
         | Throw e \<Rightarrow> (Throw e, P)
         | Unmodelled \<Rightarrow> (Unmodelled, P)))"

definition unflattenObject :: "obj \<Rightarrow> obj \<Rightarrow> obj outcome \<times> obj" where
  "unflattenObject P ob = unflatten_loop P ob ob []"

text \<open>
  \<open>unflatten(flatten(r))\<close> on a record \<open>r\<close>, as the two pipelines compose the transforms.
\<close>

definition round_trip :: "obj \<Rightarrow> obj \<Rightarrow> obj outcome \<times> obj" where
  "round_trip P r =
     (case flattenObject P (JObj r) [] of
        Ok flat \<Rightarrow> unflattenObject P flat
      | Throw e \<Rightarrow> (Throw e, P)
      | Unmodelled \<Rightarrow> (Unmodelled, P))"

subsection \<open>Records and their flat form\<close>

text \<open>
  An object as JavaScript enumerates it: no key twice, the array indices first in
  ascending order, then the other keys.
\<close>

definition index_order :: "jsstring list \<Rightarrow> bool" where
  "index_order ks =
     (sorted_wrt (\<lambda>a b. digits_val a < digits_val b) (takeWhile is_array_index ks) \<and>
      list_all (\<lambda>k. \<not> is_array_index k) (dropWhile is_array_index ks))"

definition js_object :: "obj \<Rightarrow> bool" where
  "js_object ps = (distinct (map fst ps) \<and> index_order (map fst ps))"

text \<open>
  The keys the round trip can carry: no \<open>.\<close> in the key, and neither \<open>__proto__\<close>, which
  an assignment hands to the inherited setter, nor \<open>hasOwnProperty\<close>, which hides the
  method both transforms call on the object.
\<close>

definition key_ok :: "jsstring \<Rightarrow> bool" where
  "key_ok k = (46 \<notin> set k \<and> k \<noteq> js ''__proto__'' \<and> k \<noteq> js ''hasOwnProperty'')"

text \<open>
  The records the round trip is stated for: every key on every level is as above, and
  every nested record is an object that is not empty and stands under a key that
  is not the name of a method of \<open>Object.prototype\<close> (the walk of \<open>unflattenObject\<close> would
  find the method instead of creating the nested record).
\<close>

fun record_ok :: "obj \<Rightarrow> bool" where
  "record_ok [] = True"
| "record_ok ((k, v) # rest) =
     (key_ok k \<and>
      (case v of
         JObj nested \<Rightarrow>
           nested \<noteq> [] \<and> k \<notin> set object_prototype_methods \<and> js_object nested \<and> record_ok nested
       | _ \<Rightarrow> True) \<and>
      record_ok rest)"

text \<open>
  At the top level the empty key must not hold a nested record: the empty prefix is
  falsy, so the keys of such a record would lose their parent.
\<close>

definition empty_key_is_scalar :: "obj \<Rightarrow> bool" where
  "empty_key_is_scalar r = (case map_of r [] of Some (JObj nested) \<Rightarrow> False | _ \<Rightarrow> True)"

text \<open>
  What the round trip needs of \<open>Object.prototype\<close>, whatever was added to it: the method
  \<open>hasOwnProperty\<close> is not overwritten, and no key that holds a nested record, on any
  level, finds a truthy value there (the walk of \<open>unflattenObject\<close> would take that value
  for the nested record).
\<close>

definition falsy_on_prototype :: "obj \<Rightarrow> jsstring \<Rightarrow> bool" where
  "falsy_on_prototype P k = (case map_of P k of Some v \<Rightarrow> \<not> truthy v | None \<Rightarrow> True)"

fun nested_keys_free :: "obj \<Rightarrow> obj \<Rightarrow> bool" where
  "nested_keys_free P [] = True"
| "nested_keys_free P ((k, v) # rest) =
     ((case v of
         JObj nested \<Rightarrow> falsy_on_prototype P k \<and> nested_keys_free P nested
       | _ \<Rightarrow> True) \<and>
      nested_keys_free P rest)"

definition prototype_allows :: "obj \<Rightarrow> obj \<Rightarrow> bool" where
  "prototype_allows P r = (map_of P (js ''hasOwnProperty'') = None \<and> nested_keys_free P r)"

text \<open>
  The flat form of a record with keys relative to the record itself, in the order of a
  depth-first traversal, and the object built by defining the entries of a list one
  after the other. Both serve to state what the two loops compute.
\<close>

definition under :: "jsstring \<Rightarrow> jsstring \<times> jsval \<Rightarrow> jsstring \<times> jsval" where
  "under k e = (k @ js ''.'' @ fst e, snd e)"

fun flat_rel :: "obj \<Rightarrow> obj" where
  "flat_rel [] = []"
| "flat_rel ((k, v) # rest) =
     (case v of
        JObj nested \<Rightarrow> map (under k) (flat_rel nested) @ flat_rel rest
      | _ \<Rightarrow> (k, v) # flat_rel rest)"

definition build :: "obj \<Rightarrow> obj \<Rightarrow> obj" where
  "build entries start = fold (\<lambda>e acc. define_own (fst e) (snd e) acc) entries start"

definition child_of :: "obj \<Rightarrow> jsstring \<Rightarrow> obj" where
  "child_of R k = (case map_of R k of Some (JObj c) \<Rightarrow> c | _ \<Rightarrow> [])"

definition is_object :: "jsval \<Rightarrow> bool" where
  "is_object v = (case v of JObj nested \<Rightarrow> True | _ \<Rightarrow> False)"

text \<open>
  The entries under array indices in ascending order, and the entries that
  \<open>flattenObject\<close> writes under an array index: the scalars of the top level whose key
  is one.
\<close>

definition ascending_indices :: "obj \<Rightarrow> bool" where
  "ascending_indices I =
     (list_all (\<lambda>e. is_array_index (fst e)) I \<and>
      sorted_wrt (\<lambda>a b. digits_val (fst a) < digits_val (fst b)) I)"

definition index_scalar :: "jsstring \<times> jsval \<Rightarrow> bool" where
  "index_scalar e = (is_array_index (fst e) \<and> \<not> is_object (snd e))"

section \<open>Plain text to Markdown\<close>

text \<open>
  The body of the loop over the lines of a text file: what one source line pushes onto
  the Markdown lines. The test \<open>/[.!?]$/\<close> looks at the last code unit.
\<close>

definition ends_in_terminal :: "jsstring \<Rightarrow> bool" where
  "ends_in_terminal s = (s \<noteq> [] \<and> last s \<in> set [46, 33, 63])"

definition structure_line :: "jsstring \<Rightarrow> jsstring" where
  "structure_line line =
     (let trimmed = trim line in
      if trimmed = [] then []
      else if length trimmed < 60 \<and> \<not> ends_in_terminal trimmed \<and> \<not> js_includes trimmed 32
        then js ''## '' @ trimmed
      else if startsWith trimmed (js ''- '') \<or> startsWith trimmed (js ''* '') then trimmed
      else trimmed)"

definition markdown_header :: "jsstring \<Rightarrow> jsstring list" where
  "markdown_header name =
     [js ''# '' @ replace_first (js ''.txt'') [] name, [], js ''Converted from text file'', []]"

definition structureText :: "jsstring \<Rightarrow> jsstring \<Rightarrow> jsstring" where
  "structureText text name =
     js_join [10] (markdown_header name @ map structure_line (js_split 10 text))"

section \<open>Text of a PDF\<close>

type_synonym bytes = "nat list"

record pdf_data =
  pdf_text :: jsstring
  numpages :: nat

text \<open>
  \<open>(n / 1024).toFixed(1)\<close> for a byte count \<open>n\<close>: the quotient is exact in a double, and
  \<open>toFixed\<close> takes the nearest tenth, the larger one on a tie.
\<close>

definition kilobytes_toFixed1 :: "nat \<Rightarrow> jsstring" where
  "kilobytes_toFixed1 n =
     (let tenths = (10 * n + 512) div 1024
      in show_nat (tenths div 10) @ js ''.'' @ show_nat (tenths mod 10))"

definition bullet :: jsstring where
  "bullet = [0x2022, 0x20]"

definition extracted_text :: "jsstring \<Rightarrow> jsstring" where
  "extracted_text t = [0xD83D, 0xDCC4] @ js '' PDF Text Content:'' @ [10, 10] @ t"

definition no_text_report :: "nat \<Rightarrow> nat \<Rightarrow> jsstring" where
  "no_text_report pages nbytes =
     js_join [10]
       [[0x26A0, 0xFE0F] @ js '' PDF Processing Issue'',
        [],
        [0xD83D, 0xDCC4] @ js '' **PDF Information:**'',
        bullet @ js ''Total pages: '' @ show_nat pages,
        bullet @ js ''File size: '' @ kilobytes_toFixed1 nbytes @ js ''KB'',
        bullet @ js ''Status: Valid PDF format'',
        [],
        [0x274C] @ js '' **Text Extraction Failed:**'',
        js ''No extractable text found in the PDF.'',
        [],
        [0xD83D, 0xDD0D] @ js '' **Possible reasons:**'',
        bullet @ js ''PDF contains only images (scanned document)'',
        bullet @ js ''Text is embedded as graphics'',
        bullet @ js ''PDF uses complex formatting'',
        bullet @ js ''Password protection or security restrictions'',
        [],
        [0xD83D, 0xDCA1] @ js '' **This converter works perfectly with:**'',
        bullet @ js ''Word documents (DOCX '' @ [0x2192] @ js '' Markdown)'',
        bullet @ js ''Images (PNG, JPG conversions)'',
        bullet @ js ''Spreadsheets (CSV '' @ [0x2192] @ js '' JSON)'']"

definition likely_causes :: "jsstring list" where
  "likely_causes =
     [js ''**This might indicate:**'',
      bullet @ js ''Corrupted file upload'',
      bullet @ js ''Unsupported PDF version'',
      bullet @ js ''Server processing limitations'',
      bullet @ js ''Memory constraints'']"

definition solutions_to_try :: "jsstring list" where
  "solutions_to_try =
     [js ''**Solutions to try:**'',
      bullet @ js ''Upload a different PDF file'',
      bullet @ js ''Ensure file isn'' @ [39] @ js ''t password-protected'',
      bullet @ js ''Try a smaller file size'',
      bullet @ js ''Use alternative conversion tools'']"

definition unable_report :: "jsstring \<Rightarrow> jsstring" where
  "unable_report message =
     js_join [10]
       ([[0x274C] @ js '' **Unable to process PDF**'',
         [],
         js ''**Error encountered:**'',
         message,
         []]
        @ likely_causes @ [[]] @ solutions_to_try @
        [[],
         js ''**Working alternatives:**'',
         [0xD83D, 0xDCDD] @ js '' DOCX, TXT, CSV, and image conversions work perfectly!''])"

text \<open>
  \<open>extractPdfText(buffer)\<close>. The parser is a capability of the environment: it returns
  the text and the page count, or throws an error with a message. The function catches
  the error itself and returns a string on every path.
\<close>

definition extractPdfText :: "(bytes \<Rightarrow> jsstring + pdf_data) \<Rightarrow> bytes \<Rightarrow> jsstring" where
  "extractPdfText pdfParse buffer =
     (case pdfParse buffer of
        Inr data \<Rightarrow>
          (if pdf_text data \<noteq> [] \<and> length (trim (pdf_text data)) > 0
           then extracted_text (trim (pdf_text data))
           else no_text_report (numpages data) (length buffer))
      | Inl message \<Rightarrow> unable_report message)"

section \<open>The route handler\<close>

text \<open>
  What the handler takes from its environment: the libraries, as functions that return
  or throw an error with a message, and the case mappings of the engine for strings
  outside ASCII. \<open>Papa.parse\<close> is called with \<open>header: true\<close> and returns the rows as
  objects, with the list of fields if it found one.
\<close>

record capabilities =
  mammoth_extractRawText :: "bytes \<Rightarrow> jsstring + jsstring"
  pdfParse :: "bytes \<Rightarrow> jsstring + pdf_data"
  papa_parse :: "jsstring \<Rightarrow> obj list \<times> jsstring list option"
  papa_unparse :: "obj list \<Rightarrow> jsstring"
  json_parse :: "jsstring \<Rightarrow> jsstring + jsval"
  json_stringify :: "jsval \<Rightarrow> jsstring"
  sharp_png :: "bytes \<Rightarrow> jsstring + bytes"
  sharp_jpeg :: "bytes \<Rightarrow> jsstring + bytes"
  buffer_toString :: "bytes \<Rightarrow> jsstring"
  unicode_toLowerCase :: "jsstring \<Rightarrow> jsstring"
  unicode_toUpperCase :: "jsstring \<Rightarrow> jsstring"

record upload =
  file_name :: jsstring
  file_type :: jsstring
  file_bytes :: bytes

text \<open>An entry of the form data is a string or a file; \<open>get\<close> gives \<open>null\<close> for a missing one.\<close>

datatype form_entry = Field jsstring | File upload

record form_data =
  entry_file :: "form_entry option"
  entry_outputType :: "form_entry option"

datatype payload = TextPayload jsstring | BinaryPayload bytes

text \<open>
  A response: status 200 with the converted payload, its \<open>Content-Type\<close> and the file
  name of its \<open>Content-Disposition\<close>; status 400 with an error message; status 500 for
  an exception caught by the handler.
\<close>

datatype response =
    Success payload jsstring jsstring
  | ClientError jsstring
  | ServerError js_error

fun status :: "response \<Rightarrow> nat" where
  "status (Success body mime filename) = 200"
| "status (ClientError message) = 400"
| "status (ServerError e) = 500"

definition mimeTypes :: obj where
  "mimeTypes =
     [(js ''md'', JStr (js ''text/markdown; charset=utf-8'')),
      (js ''txt'', JStr (js ''text/plain; charset=utf-8'')),
      (js ''json'', JStr (js ''application/json; charset=utf-8'')),
      (js ''csv'', JStr (js ''text/csv; charset=utf-8'')),
      (js ''pdf'', JStr (js ''application/pdf'')),
      (js ''docx'',
        JStr (js ''application/vnd.openxmlformats-officedocument.wordprocessingml.document'')),
      (js ''png'', JStr (js ''image/png'')),
      (js ''jpg'', JStr (js ''image/jpeg'')),
      (js ''jpeg'', JStr (js ''image/jpeg''))]"

text \<open>\<open>!ob[k]\<close>: the property read, down the prototype chain, is falsy.\<close>

definition property_falsy :: "obj \<Rightarrow> obj \<Rightarrow> jsstring \<Rightarrow> bool" where
  "property_falsy P ob k =
     (case get_property P ob k of
        Own v \<Rightarrow> \<not> truthy v
      | Inherited v \<Rightarrow> \<not> truthy v
      | PrototypeObject \<Rightarrow> False
      | BuiltinFunction \<Rightarrow> False
      | Undefined \<Rightarrow> True)"

definition content_type :: "jsstring \<Rightarrow> jsstring" where
  "content_type outputType = (case map_of mimeTypes outputType of Some (JStr m) \<Rightarrow> m | _ \<Rightarrow> [])"

text \<open>
  \<open>/\.(jpg|jpeg|png|gif|bmp|webp|tiff|svg)$/i\<close> on the file name. The pattern is ASCII, and
  the flag \<open>i\<close> never folds a code unit outside ASCII onto an ASCII one, so the match is
  a comparison of the suffix up to the case of the ASCII letters.
\<close>

definition image_extensions :: "jsstring list" where
  "image_extensions =
     [js ''.jpg'', js ''.jpeg'', js ''.png'', js ''.gif'', js ''.bmp'', js ''.webp'', js ''.tiff'',
      js ''.svg'']"

definition matches_image_extension :: "jsstring \<Rightarrow> bool" where
  "matches_image_extension name = list_ex (endsWith (ascii_lower name)) image_extensions"

text \<open>\<open>name.split(".").pop()?.toLowerCase() || "unknown"\<close>.\<close>

definition file_extension :: "capabilities \<Rightarrow> jsstring \<Rightarrow> jsstring" where
  "file_extension caps name =
     (let ext = toLowerCase (unicode_toLowerCase caps) (last (js_split 46 name))
      in if ext = [] then js ''unknown'' else ext)"

definition unsupported_conversion :: "capabilities \<Rightarrow> jsstring \<Rightarrow> jsstring \<Rightarrow> jsstring" where
  "unsupported_conversion caps name outputType =
     js ''Conversion from '' @ toUpperCase (unicode_toUpperCase caps) (file_extension caps name) @
     js '' to '' @ toUpperCase (unicode_toUpperCase caps) outputType @
     js '' is not supported. Please check the supported conversions list.''"

definition converted_filename :: "jsstring \<Rightarrow> nat \<Rightarrow> jsstring \<Rightarrow> jsstring" where
  "converted_filename name now outputType =
     hd (js_split 46 name) @ js ''-converted-'' @ show_nat now @ js ''.'' @ outputType"

definition content_disposition :: "jsstring \<Rightarrow> jsstring" where
  "content_disposition filename = js ''attachment; filename='' @ [34] @ filename @ [34]"

text \<open>
  The headers of the response. The constructor of the response takes each value as a
  byte string, so a code unit above 255 is a TypeError; it strips the HTTP white space
  (tab, LF, CR, space) from both ends, and what is left must hold no NUL, LF or CR, or
  else it is a TypeError again. The constructor is called inside the \<open>try\<close> block.
\<close>

definition is_http_whitespace :: "nat \<Rightarrow> bool" where
  "is_http_whitespace c = (c \<in> set [9, 10, 13, 32])"

definition header_value_normalize :: "jsstring \<Rightarrow> jsstring" where
  "header_value_normalize v =
     rev (dropWhile is_http_whitespace (rev (dropWhile is_http_whitespace v)))"

definition valid_header_value :: "jsstring \<Rightarrow> bool" where
  "valid_header_value v =
     (list_all (\<lambda>c. c \<le> 255) v \<and>
      list_all (\<lambda>c. c \<noteq> 0 \<and> c \<noteq> 10 \<and> c \<noteq> 13) (header_value_normalize v))"

text \<open>
  \<open>new NextResponse(converted, {status: 200, headers: ...})\<close> with the two headers of the
  route.
\<close>

definition new_response :: "payload \<Rightarrow> jsstring \<Rightarrow> jsstring \<Rightarrow> response outcome" where
  "new_response converted mime filename =
     (if valid_header_value mime \<and> valid_header_value (content_disposition filename)
      then Ok (Success converted mime filename)
      else Throw TypeError)"

text \<open>The rows of a CSV file, unflattened one after the other as \<open>map\<close> does.\<close>

fun unflatten_rows :: "obj \<Rightarrow> obj list \<Rightarrow> obj list outcome \<times> obj" where
  "unflatten_rows P [] = (Ok [], P)"
| "unflatten_rows P (row # rows) =
     (case unflattenObject P row of
        (Ok r, P') \<Rightarrow>
          (case unflatten_rows P' rows of
             (Ok rs, P'') \<Rightarrow> (Ok (r # rs), P'')
           | other \<Rightarrow> other)
      | (Throw e, P') \<Rightarrow> (Throw e, P')
      | (Unmodelled, P') \<Rightarrow> (Unmodelled, P'))"

fun flatten_items :: "obj \<Rightarrow> jsval list \<Rightarrow> obj list outcome" where
  "flatten_items P [] = Ok []"
| "flatten_items P (item # items) =
     (case flattenObject P item [] of
        Ok r \<Rightarrow>
          (case flatten_items P items of
             Ok rs \<Rightarrow> Ok (r # rs)
           | other \<Rightarrow> other)
      | Throw e \<Rightarrow> Throw e
      | Unmodelled \<Rightarrow> Unmodelled)"

definition csv_envelope :: "jsstring \<Rightarrow> obj list \<Rightarrow> jsstring list option \<Rightarrow> jsval" where
  "csv_envelope name rows fieldnames =
     JObj [(js ''meta'',
            JObj [(js ''filename'', JStr name),
                  (js ''rows'', JNum (real (length rows))),
                  (js ''fields'', JArr (map JStr (case fieldnames of Some fs \<Rightarrow> fs | None \<Rightarrow> [])))]),
           (js ''data'', JArr (map JObj rows))]"

text \<open>
  The chain of conversions of the handler, on the lower-cased output type and the
  uploaded file, after its bytes are read. \<open>Inl\<close> is an early error response; \<open>Inr\<close> is
  the converted payload.
\<close>

definition convert ::
  "capabilities \<Rightarrow> obj \<Rightarrow> jsstring \<Rightarrow> upload \<Rightarrow> (jsstring + payload) outcome \<times> obj" where
  "convert caps P outputType file =
     (let name = file_name file; buffer = file_bytes file in
      if outputType = js ''md'' \<and> endsWith name (js ''.docx'') then
        (case mammoth_extractRawText caps buffer of
           Inl message \<Rightarrow> (Throw (Failed message), P)
         | Inr raw \<Rightarrow>
             (Ok (Inr (TextPayload
                (js ''# '' @ replace_first (js ''.docx'') [] name @ [10, 10] @
                 js ''Converted from Word document'' @ [10, 10] @ raw))), P))
      else if outputType = js ''txt'' \<and> endsWith name (js ''.pdf'') then
        (Ok (Inr (TextPayload (extractPdfText (pdfParse caps) buffer))), P)
      else if outputType = js ''json'' \<and> endsWith name (js ''.csv'') then
        (case papa_parse caps (buffer_toString caps buffer) of
           (rows, fieldnames) \<Rightarrow>
             (case unflatten_rows P rows of
                (Ok unflattenedData, P') \<Rightarrow>
                  (Ok (Inr (TextPayload
                     (json_stringify caps (csv_envelope name unflattenedData fieldnames)))), P')
              | (Throw e, P') \<Rightarrow> (Throw e, P')
              | (Unmodelled, P') \<Rightarrow> (Unmodelled, P')))
      else if outputType = js ''csv'' \<and> endsWith name (js ''.json'') then
        (case json_parse caps (buffer_toString caps buffer) of
           Inl message \<Rightarrow> (Throw (Failed message), P)
         | Inr (JArr items) \<Rightarrow>
             (case flatten_items P items of
                Ok flattenedData \<Rightarrow> (Ok (Inr (TextPayload (papa_unparse caps flattenedData))), P)
              | Throw e \<Rightarrow> (Throw e, P)
              | Unmodelled \<Rightarrow> (Unmodelled, P))
         | Inr (JObj ps) \<Rightarrow>
             (case flattenObject P (JObj ps) [] of
                Ok flat \<Rightarrow> (Ok (Inr (TextPayload (papa_unparse caps [flat]))), P)
              | Throw e \<Rightarrow> (Throw e, P)
              | Unmodelled \<Rightarrow> (Unmodelled, P))
         | Inr other \<Rightarrow> (Ok (Inl (js ''JSON must be an object or array of objects'')), P))
      else if (outputType = js ''png'' \<or> outputType = js ''jpg'' \<or> outputType = js ''jpeg'') \<and>
              (startsWith (file_type file) (js ''image/'') \<or> matches_image_extension name) then
        (case (if outputType = js ''png'' then sharp_png caps buffer else sharp_jpeg caps buffer) of
           Inl message \<Rightarrow> (Throw (Failed message), P)
         | Inr recoded \<Rightarrow> (Ok (Inr (BinaryPayload recoded)), P))
      else if outputType = js ''md'' \<and> endsWith name (js ''.txt'') then
        (Ok (Inr (TextPayload (structureText (buffer_toString caps buffer) name))), P)
      else (Ok (Inl (unsupported_conversion caps name outputType)), P))"

text \<open>
  The body of the \<open>try\<close> block of \<open>POST\<close>. The request is the parsed form data, or the
  message of the error \<open>req.formData()\<close> throws; \<open>now\<close> is \<open>Date.now()\<close>.
\<close>

definition handle ::
  "capabilities \<Rightarrow> nat \<Rightarrow> obj \<Rightarrow> jsstring + form_data \<Rightarrow> response outcome \<times> obj" where
  "handle caps now P req =
     (case req of
        Inl message \<Rightarrow> (Throw (Failed message), P)
      | Inr formData \<Rightarrow>
          (case entry_outputType formData of
             Some (File f) \<Rightarrow> (Throw TypeError, P)
           | requested \<Rightarrow>
               (let outputType =
                      (case requested of
                         Some (Field s) \<Rightarrow> Some (toLowerCase (unicode_toLowerCase caps) s)
                       | _ \<Rightarrow> None) in
                if entry_file formData = None \<or> entry_file formData = Some (Field []) then
                  (Ok (ClientError (js ''No file uploaded'')), P)
                else if outputType = None \<or> outputType = Some [] \<or>
                        property_falsy P mimeTypes (the outputType) then
                  (Ok (ClientError (js ''Unsupported output type'')), P)
                else
                  (case entry_file formData of
                     Some (File file) \<Rightarrow>
                       (case convert caps P (the outputType) file of
                          (Ok (Inr converted), P') \<Rightarrow>
                            (new_response converted (content_type (the outputType))
                               (converted_filename (file_name file) now (the outputType)), P')
                        | (Ok (Inl message), P') \<Rightarrow> (Ok (ClientError message), P')
                        | (Throw e, P') \<Rightarrow> (Throw e, P')
                        | (Unmodelled, P') \<Rightarrow> (Unmodelled, P'))
                   | _ \<Rightarrow> (Throw TypeError, P)))))"

text \<open>\<open>POST\<close>: the \<open>catch\<close> turns every exception into a response of status 500.\<close>

definition POST ::
  "capabilities \<Rightarrow> nat \<Rightarrow> obj \<Rightarrow> jsstring + form_data \<Rightarrow> response outcome \<times> obj" where
  "POST caps now P req =
     (case handle caps now P req of
        (Throw e, P') \<Rightarrow> (Ok (ServerError e), P')
      | other \<Rightarrow> other)"

section \<open>A sample environment\<close>

text \<open>
  An environment to run the handler in; it is asked for the case of ASCII strings only.
  Its PDF parser rejects the empty buffer and
  otherwise reads the page count from the first byte and the text from the rest; its CSV
  parser knows one file, with the header \<open>a.b,__proto__.a\<close> and the row \<open>6,5\<close>, and one
  with the header \<open>name,meta.age\<close> and the row \<open>A,30\<close>.
\<close>

definition polluting_csv :: jsstring where
  "polluting_csv = js ''a.b,__proto__.a'' @ [10] @ js ''6,5''"

definition sample_csv :: jsstring where
  "sample_csv = js ''name,meta.age'' @ [10] @ js ''A,30''"

definition sample_environment :: capabilities where
  "sample_environment =
     \<lparr> mammoth_extractRawText = (\<lambda>buffer. Inr buffer),
       pdfParse = (\<lambda>buffer. case buffer of
                      [] \<Rightarrow> Inl (js ''Invalid PDF structure'')
                    | pages # rest \<Rightarrow> Inr \<lparr> pdf_text = rest, numpages = pages \<rparr>),
       papa_parse = (\<lambda>csv.
          if csv = polluting_csv then
            ([[(js ''a.b'', JNum 6), (js ''__proto__.a'', JNum 5)]],
             Some [js ''a.b'', js ''__proto__.a''])
          else if csv = sample_csv then
            ([[(js ''name'', JStr (js ''A'')), (js ''meta.age'', JNum 30)]],
             Some [js ''name'', js ''meta.age''])
          else ([], None)),
       papa_unparse = (\<lambda>rows. concat (map (\<lambda>row. concat (map fst row)) rows)),
       json_parse = (\<lambda>source. Inl (js ''Unexpected end of JSON input'')),
       json_stringify = (\<lambda>v. case v of JObj ps \<Rightarrow> concat (map fst ps) | _ \<Rightarrow> []),
       sharp_png = (\<lambda>buffer. Inr buffer),
       sharp_jpeg = (\<lambda>buffer. Inr buffer),
       buffer_toString = (\<lambda>buffer. buffer),
       unicode_toLowerCase = (\<lambda>s. s),
       unicode_toUpperCase = (\<lambda>s. s) \<rparr>"

definition request :: "upload \<Rightarrow> jsstring \<Rightarrow> jsstring + form_data" where
  "request file outputType =
     Inr \<lparr> entry_file = Some (File file), entry_outputType = Some (Field outputType) \<rparr>"

section \<open>Evaluation\<close>

text \<open>The definitions the simplifier unfolds to run the transforms on a concrete input.\<close>

lemmas eval_defs = js_def pristine_def new_key_def flattenObject_def own_enumerable_def
  hasOwnProperty_callable_def get_property_def object_prototype_methods_def
  inherited_enumerable_def set_property_def define_own_def replace_own_def
  is_array_index_def is_digit_def digits_val_def unflattenObject_def landing_of_def
  attach_def assign_on_primitive_def prototype_assign_def round_trip_def

section \<open>Facts about strings\<close>

lemma js_eq_iff [simp]: "js a = js b \<longleftrightarrow> a = b"
  unfolding js_def by (simp add: inj_map_eq_map inj_of_char)

lemma js_Nil_iff [simp]: "js a = [] \<longleftrightarrow> a = []" "[] = js a \<longleftrightarrow> a = []"
  by (auto simp: js_def)

lemma js_split_not_Nil [simp]: "js_split c s \<noteq> []"
  by (induction s) (auto split: list.splits)

lemma js_split_no_sep: "c \<notin> set x \<Longrightarrow> js_split c x = [x]"
  by (induction x) auto

lemma js_split_append_sep:
  "c \<notin> set x \<Longrightarrow> js_split c (x @ c # rest) = x # js_split c rest"
  by (induction x) (auto split: list.splits)

lemma js_split_join:
  "xs \<noteq> [] \<Longrightarrow> list_all (\<lambda>x. c \<notin> set x) xs \<Longrightarrow> js_split c (js_join [c] xs) = xs"
proof (induction xs)
  case Nil
  then show ?case by simp
next
  case (Cons x xs)
  show ?case
  proof (cases xs)
    case Nil
    with Cons.prems show ?thesis by (simp add: js_split_no_sep)
  next
    case (Cons y ys)
    with Cons.IH Cons.prems show ?thesis by (simp add: js_split_append_sep)
  qed
qed

lemma js_split_parts_no_sep: "list_all (\<lambda>x. c \<notin> set x) (js_split c s)"
  by (induction s) (auto split: list.splits)

lemma set_trim: "set (trim s) \<subseteq> set s"
proof -
  have "set (trim s) \<subseteq> set (rev (dropWhile is_white_space s))"
    unfolding trim_def using set_dropWhileD by fastforce
  also have "\<dots> \<subseteq> set s"
    using set_dropWhileD by fastforce
  finally show ?thesis .
qed

lemma trim_not_Nil: "s \<noteq> [] \<Longrightarrow> \<not> is_white_space (hd s) \<Longrightarrow> trim s \<noteq> []"
proof -
  assume s: "s \<noteq> []" and h: "\<not> is_white_space (hd s)"
  then have d: "dropWhile is_white_space s = s" by (cases s) simp_all
  have "hd s \<in> set (rev s)" using s by simp
  with h have "dropWhile is_white_space (rev s) \<noteq> []"
    by (metis dropWhile_eq_Nil_conv)
  with d show ?thesis by (simp add: trim_def)
qed

lemma structure_line_no_newline: "10 \<notin> set line \<Longrightarrow> 10 \<notin> set (structure_line line)"
  using set_trim [of line] by (auto simp: structure_line_def Let_def js_def)

lemma show_nat_digits: "list_all is_digit (show_nat n)"
proof (induction n rule: show_nat.induct)
  case (1 n)
  show ?case
  proof (cases "n < 10")
    case True
    then show ?thesis by (subst show_nat.simps) (simp add: is_digit_def)
  next
    case False
    then have "list_all is_digit (show_nat (n div 10))" using 1 by simp
    moreover have "is_digit (48 + n mod 10)" by (simp add: is_digit_def)
    ultimately show ?thesis using False by (subst show_nat.simps) simp
  qed
qed

lemma show_nat_no_newline: "10 \<notin> set (show_nat n)"
  using show_nat_digits [of n] by (auto simp: list_all_iff is_digit_def)

lemma set_replace_first: "set (replace_first pat rep s) \<subseteq> set s \<union> set rep"
proof (induction s)
  case Nil
  then show ?case by auto
next
  case (Cons x xs)
  have "set (drop (length pat) (x # xs)) \<subseteq> set (x # xs)" by (rule set_drop_subset)
  with Cons show ?case by auto
qed

section \<open>flattenObject on an empty nested record\<close>

lemma callable_pristine:
  "hasOwnProperty_callable [] ob = (map_of ob (js ''hasOwnProperty'') = None)"
  by (simp add: hasOwnProperty_callable_def get_property_def js_def object_prototype_methods_def
      split: option.splits)

lemma inherited_pristine [simp]: "inherited_enumerable [] ob = []"
  by (simp add: inherited_enumerable_def)

text \<open>With nothing added to the prototype, the loop depends on the receiver only through
  the test whether \<open>hasOwnProperty\<close> is still the built-in method.\<close>

lemma flatten_loop_receiver:
  "hasOwnProperty_callable [] ob = hasOwnProperty_callable [] ob' \<Longrightarrow>
   flatten_loop [] ob es prefix acc = flatten_loop [] ob' es prefix acc"
proof (induction es arbitrary: acc)
  case Nil
  then show ?case by simp
next
  case (Cons e es)
  obtain key v where e: "e = (key, v)" by (cases e)
  show ?case
    using Cons e by (cases v) (simp_all split: outcome.splits)
qed

lemma flatten_loop_skips_empty:
  "hasOwnProperty_callable [] ob \<Longrightarrow>
   flatten_loop [] ob (xs @ (k, JObj []) # ys) prefix acc = flatten_loop [] ob (xs @ ys) prefix acc"
proof (induction xs arbitrary: acc)
  case Nil
  then show ?case by simp
next
  case (Cons e xs)
  obtain key v where e: "e = (key, v)" by (cases e)
  show ?case
    using Cons e by (cases v) (simp_all split: outcome.splits)
qed

lemma flatten_loop_Ok_callable:
  "flatten_loop P ob (e # es) prefix acc = Ok flat \<Longrightarrow> hasOwnProperty_callable P ob"
  by (cases e) (auto split: if_splits)

text \<open>
  Claim C10. Whenever \<open>flattenObject\<close> returns a flat record for a record that holds an
  empty nested record under some key \<open>k\<close>, that flat record is the one it returns for the
  record without the entry: the empty nested record contributes no key, at any place in
  the record and under any prefix. So \<open>flatten({a: {}, b: 1})\<close> is \<open>{b: 1}\<close>.
\<close>

theorem empty_nested_record_contributes_nothing:
  assumes "flattenObject pristine (JObj (xs @ (k, JObj []) # ys)) prefix = Ok flat"
  shows "flattenObject pristine (JObj (xs @ ys)) prefix = Ok flat"
proof -
  let ?ob = "xs @ (k, JObj []) # ys"
  from assms have run: "flatten_loop [] ?ob ?ob prefix [] = Ok flat"
    by (simp add: flattenObject_def own_enumerable_def pristine_def)
  have "?ob = hd ?ob # tl ?ob" by (cases xs) simp_all
  with run have c: "hasOwnProperty_callable [] ?ob"
    using flatten_loop_Ok_callable by metis
  then have c': "hasOwnProperty_callable [] (xs @ ys)"
    by (auto simp: callable_pristine map_of_append split: option.splits if_splits)
  have "flatten_loop [] (xs @ ys) (xs @ ys) prefix [] = flatten_loop [] ?ob (xs @ ys) prefix []"
    using c c' by (intro flatten_loop_receiver) simp
  also have "\<dots> = flatten_loop [] ?ob ?ob prefix []"
    using c by (simp add: flatten_loop_skips_empty)
  finally show ?thesis
    using run by (simp add: flattenObject_def own_enumerable_def pristine_def)
qed

theorem empty_nested_record_contributes_nothing_witness:
  "flattenObject pristine (JObj ([] @ (js ''a'', JObj []) # [(js ''b'', JNum 1)])) []
     = Ok [(js ''b'', JNum 1)]
   \<and> flattenObject pristine (JObj ([] @ [(js ''b'', JNum 1)])) [] = Ok [(js ''b'', JNum 1)]"
proof -
  have h: "flattenObject pristine (JObj ([] @ (js ''a'', JObj []) # [(js ''b'', JNum 1)])) []
             = Ok [(js ''b'', JNum 1)]"
    by (simp add: eval_defs)
  from empty_nested_record_contributes_nothing [OF h] h show ?thesis by simp
qed

text \<open>The example of the claim: \<open>flatten({a: {}})\<close> is the empty record.\<close>

lemma flatten_only_empty_nested:
  "flattenObject pristine (JObj [(js ''a'', JObj [])]) [] = Ok []"
  by (simp add: eval_defs)

section \<open>Colliding keys in unflattenObject\<close>

text \<open>
  A later scalar replaces an earlier nested object, and an earlier falsy scalar is
  replaced by the object a later key implies: in these two cases the later key wins.
  An earlier truthy scalar is kept by the walk, and the assignment on it throws.
\<close>

lemma collision_scalar_after_nested:
  "unflattenObject pristine [(js ''a.b'', v), (js ''a'', s)] = (Ok [(js ''a'', s)], pristine)"
  by (simp add: eval_defs)

lemma collision_nested_after_falsy_scalar:
  assumes "\<not> truthy s"
  shows "unflattenObject pristine [(js ''a'', s), (js ''a.b'', v)]
           = (Ok [(js ''a'', JObj [(js ''b'', v)])], pristine)"
  using assms by (cases s) (auto simp add: eval_defs)

lemma collision_nested_after_truthy_scalar:
  assumes "truthy s" and "s = JBool b \<or> s = JNum n \<or> s = JStr t"
  shows "unflattenObject pristine [(js ''a'', s), (js ''a.b'', v)] = (Throw TypeError, pristine)"
  using assms by (auto simp add: eval_defs)

text \<open>
  Claim C4, at the flat record \<open>{"a": 1, "a.b": 2}\<close>. The claim asks for the later key
  to win: \<open>{a: {b: 2}}\<close>. The walk for \<open>a.b\<close> finds the truthy number under \<open>a\<close>, keeps
  it, and the assignment of \<open>b\<close> on that number throws a TypeError.
\<close>

theorem unflatten_truthy_scalar_collision_throws:
  "unflattenObject pristine [(js ''a'', JNum 1), (js ''a.b'', JNum 2)] = (Throw TypeError, pristine)"
  by (simp add: eval_defs)

section \<open>Plain text to Markdown: the classification of lines\<close>

lemma js_split_append: "js_split c (x @ c # rest) = js_split c x @ js_split c rest"
proof (induction x)
  case Nil
  then show ?case by simp
next
  case (Cons a x)
  obtain w ws where "js_split c x = w # ws"
    by (cases "js_split c x") simp_all
  with Cons show ?case by simp
qed

lemma js_split_join_concat:
  "xs \<noteq> [] \<Longrightarrow> js_split c (js_join [c] xs) = concat (map (js_split c) xs)"
proof (induction xs)
  case Nil
  then show ?case by simp
next
  case (Cons x xs)
  show ?case
  proof (cases xs)
    case Nil
    then show ?thesis by simp
  next
    case (Cons y ys)
    with Cons.IH show ?thesis by (simp add: js_split_append)
  qed
qed

lemma concat_singletons: "concat (map (\<lambda>x. [x]) xs) = xs"
  by (induction xs) simp_all

lemma structured_lines_split:
  "concat (map (js_split 10) (map structure_line (js_split 10 source)))
     = map structure_line (js_split 10 source)"
proof -
  have "js_split 10 (structure_line line) = [structure_line line]"
    if "line \<in> set (js_split 10 source)" for line
  proof -
    from that have "10 \<notin> set line"
      using js_split_parts_no_sep [of 10 source] by (simp add: list_all_iff)
    then show ?thesis by (intro js_split_no_sep structure_line_no_newline)
  qed
  then have "map (js_split 10) (map structure_line (js_split 10 source))
               = map (\<lambda>x. [x]) (map structure_line (js_split 10 source))"
    by simp
  then show ?thesis by (simp only: concat_singletons)
qed

lemma structure_line_rule:
  "structure_line line =
     (if trim line = [] then []
      else if length (trim line) < 60 \<and> last (trim line) \<notin> {46, 33, 63} \<and> 32 \<notin> set (trim line)
        then js ''## '' @ trim line
      else trim line)"
  by (simp add: structure_line_def Let_def ends_in_terminal_def js_includes_def)



text \<open>
  Claim C7, as stated, at the text whose one line is \<open>"  Title"\<close>. The line is not blank
  and contains space characters, so the claim has it emitted verbatim. The code trims
  the line first, classifies what is left and emits what is left: here a subheading,
  the fifth line of the output.
\<close>

theorem raw_line_with_spaces_becomes_heading:
  "trim (js ''  Title'') \<noteq> [] \<and> js_includes (js ''  Title'') 32
   \<and> structure_line (js ''  Title'') = js ''## Title''
   \<and> structure_line (js ''  Title'') \<noteq> js ''  Title''
   \<and> js_split 10 (structureText (js ''  Title'') (js ''a.txt''))
       = [js ''# a'', [], js ''Converted from text file'', [], js ''## Title'']"
  by (simp add: structureText_def markdown_header_def startsWith_def structure_line_def Let_def
      ends_in_terminal_def js_includes_def trim_def js_def is_white_space_def)

text \<open>
  Claim C7, amended: the three-way predicate is evaluated on the trimmed line, and the
  trimmed line is what is emitted. The lines of the output of \<open>structureText\<close> are the
  heading made of the file name, a blank line, the preamble, a blank line, and then one
  line for every line of the source text, in order: a blank line for a source line whose
  trimmed form is empty; the subheading \<open>"## " + trimmed\<close> exactly when the trimmed line
  has fewer than 60 code units, does not end in \<open>.\<close>, \<open>!\<close> or \<open>?\<close>, and contains no
  space; the trimmed line itself in every other case, a bullet line included.
\<close>

theorem structureText_emits_trimmed_lines:
  "js_split 10 (structureText source name) =
     js_split 10 (js ''# '' @ replace_first (js ''.txt'') [] name)
     @ [[], js ''Converted from text file'', []]
     @ map (\<lambda>line.
              if trim line = [] then []
              else if length (trim line) < 60 \<and> last (trim line) \<notin> {46, 33, 63}
                      \<and> 32 \<notin> set (trim line)
                then js ''## '' @ trim line
              else trim line)
         (js_split 10 source)"
proof -
  have "markdown_header name @ map structure_line (js_split 10 source) \<noteq> []"
    by (simp add: markdown_header_def)
  then have "js_split 10 (structureText source name)
          = concat (map (js_split 10) (markdown_header name @ map structure_line (js_split 10 source)))"
    unfolding structureText_def by (rule js_split_join_concat)
  also have "\<dots> = concat (map (js_split 10) (markdown_header name))
            @ concat (map (js_split 10) (map structure_line (js_split 10 source)))"
    by simp
  also have "concat (map (js_split 10) (markdown_header name))
               = js_split 10 (js ''# '' @ replace_first (js ''.txt'') [] name)
                 @ [[], js ''Converted from text file'', []]"
    by (simp add: markdown_header_def js_split_no_sep js_def)
  finally show ?thesis
    by (simp only: structured_lines_split) (simp add: structure_line_rule [abs_def])
qed

theorem structureText_emits_trimmed_lines_witness:
  "js_split 10 (structureText (js ''TITLE'' @ [10, 10] @ js ''  Some sentence here.  '' @ [10]
                                 @ js ''- a point'') (js ''notes.txt''))
     = [js ''# notes'', [], js ''Converted from text file'', [],
        js ''## TITLE'', [], js ''Some sentence here.'', js ''- a point'']"
proof -
  have lines: "js_split 10 (js ''TITLE'' @ [10, 10] @ js ''  Some sentence here.  '' @ [10]
                              @ js ''- a point'')
                 = [js ''TITLE'', [], js ''  Some sentence here.  '', js ''- a point'']"
    by (simp add: js_def)
  have heading: "js_split 10 (js ''# '' @ replace_first (js ''.txt'') [] (js ''notes.txt''))
                   = [js ''# notes'']"
    by (simp add: js_def startsWith_def)
  have t1: "trim (js ''TITLE'') = js ''TITLE''"
    and t2: "trim (js ''  Some sentence here.  '') = js ''Some sentence here.''"
    and t3: "trim (js ''- a point'') = js ''- a point''"
    and t4: "trim [] = []"
    by (simp_all add: trim_def js_def is_white_space_def)
  show ?thesis
    using structureText_emits_trimmed_lines
            [of "js ''TITLE'' @ [10, 10] @ js ''  Some sentence here.  '' @ [10] @ js ''- a point''"
                "js ''notes.txt''"]
    unfolding lines heading by (simp add: t1 t2 t3 t4) (simp add: js_def)
qed

section \<open>The headers of the response\<close>

lemma normalize_unchanged:
  assumes "v \<noteq> []" and "\<not> is_http_whitespace (hd v)" and "\<not> is_http_whitespace (last v)"
  shows "header_value_normalize v = v"
proof -
  from assms(1,2) have "dropWhile is_http_whitespace v = v" by (cases v) simp_all
  moreover from assms(1,3) have "dropWhile is_http_whitespace (rev v) = rev v"
    by (cases "rev v") (simp_all add: last_rev [symmetric] del: last_rev)
  ultimately show ?thesis by (simp add: header_value_normalize_def)
qed

lemma valid_content_disposition:
  "valid_header_value (content_disposition filename)
     = list_all (\<lambda>c. c \<le> 255 \<and> c \<noteq> 0 \<and> c \<noteq> 10 \<and> c \<noteq> 13) filename"
proof -
  have "header_value_normalize (content_disposition filename) = content_disposition filename"
    by (rule normalize_unchanged)
       (simp_all add: content_disposition_def is_http_whitespace_def js_def)
  then show ?thesis
    by (auto simp: valid_header_value_def content_disposition_def js_def list_all_iff)
qed

lemma digits_fit_header:
  "list_all (\<lambda>c. c \<le> 255 \<and> c \<noteq> 0 \<and> c \<noteq> 10 \<and> c \<noteq> 13) (show_nat n)"
  using show_nat_digits [of n] by (auto simp: list_all_iff is_digit_def)

lemma valid_filename_header:
  "valid_header_value (content_disposition (converted_filename name now outputType))
     = (list_all (\<lambda>c. c \<le> 255 \<and> c \<noteq> 0 \<and> c \<noteq> 10 \<and> c \<noteq> 13) (hd (js_split 46 name)) \<and>
        list_all (\<lambda>c. c \<le> 255 \<and> c \<noteq> 0 \<and> c \<noteq> 10 \<and> c \<noteq> 13) outputType)"
  using digits_fit_header [of now]
  by (simp add: valid_content_disposition converted_filename_def) (simp add: js_def)

lemma valid_mime_md: "valid_header_value (js ''text/markdown; charset=utf-8'')"
  by (simp add: valid_header_value_def header_value_normalize_def is_http_whitespace_def js_def)

lemma valid_mime_txt: "valid_header_value (js ''text/plain; charset=utf-8'')"
  by (simp add: valid_header_value_def header_value_normalize_def is_http_whitespace_def js_def)

text \<open>
  The file name up to its first dot goes into the header unchecked: the response is
  built exactly when that part fits a header value.
\<close>

lemma new_response_md:
  "new_response converted (js ''text/markdown; charset=utf-8'')
       (converted_filename name now (js ''md''))
     = (if list_all (\<lambda>c. c \<le> 255 \<and> c \<noteq> 0 \<and> c \<noteq> 10 \<and> c \<noteq> 13) (hd (js_split 46 name))
        then Ok (Success converted (js ''text/markdown; charset=utf-8'')
                   (converted_filename name now (js ''md'')))
        else Throw TypeError)"
  by (simp add: new_response_def valid_mime_md valid_filename_header) (simp add: js_def)

lemma new_response_txt:
  "new_response converted (js ''text/plain; charset=utf-8'')
       (converted_filename name now (js ''txt''))
     = (if list_all (\<lambda>c. c \<le> 255 \<and> c \<noteq> 0 \<and> c \<noteq> 10 \<and> c \<noteq> 13) (hd (js_split 46 name))
        then Ok (Success converted (js ''text/plain; charset=utf-8'')
                   (converted_filename name now (js ''txt'')))
        else Throw TypeError)"
  by (simp add: new_response_def valid_mime_txt valid_filename_header) (simp add: js_def)

section \<open>Plain text to Markdown: totality\<close>

lemma mime_md: "map_of mimeTypes (js ''md'') = Some (JStr (js ''text/markdown; charset=utf-8''))"
  by (simp add: mimeTypes_def)

lemma mime_txt: "map_of mimeTypes (js ''txt'') = Some (JStr (js ''text/plain; charset=utf-8''))"
  by (simp add: mimeTypes_def)

lemma own_property_truthy:
  "map_of ob k = Some (JStr (js (c # cs))) \<Longrightarrow> property_falsy P ob k = False"
  by (simp add: property_falsy_def get_property_def)

lemma endsWith_shorter:
  assumes "endsWith s a" and "endsWith s b" and "length a \<le> length b"
  shows "a = drop (length b - length a) b"
proof -
  from assms have la: "length b \<le> length s" by (simp add: endsWith_def)
  have "a = drop (length s - length a) s" using assms(1) by (simp add: endsWith_def)
  also have "length s - length a = (length b - length a) + (length s - length b)"
    using la assms(3) by simp
  also have "drop \<dots> s = drop (length b - length a) (drop (length s - length b) s)"
    by (simp add: add.commute)
  also have "drop (length s - length b) s = b" using assms(2) by (simp add: endsWith_def)
  finally show ?thesis .
qed

lemma txt_not_docx: "endsWith name (js ''.txt'') \<Longrightarrow> \<not> endsWith name (js ''.docx'')"
proof
  assume "endsWith name (js ''.txt'')" and "endsWith name (js ''.docx'')"
  then have "js ''.txt'' = drop (length (js ''.docx'') - length (js ''.txt'')) (js ''.docx'')"
    by (rule endsWith_shorter) (simp add: js_def)
  then show False by (simp add: js_def)
qed

text \<open>
  What the handler answers for a file whose name ends in \<open>.txt\<close> and the output type
  \<open>md\<close>: the structured text if the name fits the header, status 500 if not.
\<close>

lemma text_to_markdown_response:
  assumes "endsWith (file_name f) (js ''.txt'')"
    and "toLowerCase (unicode_toLowerCase caps) requested = js ''md''"
  shows "POST caps now P (request f requested)
           = (if list_all (\<lambda>c. c \<le> 255 \<and> c \<noteq> 0 \<and> c \<noteq> 10 \<and> c \<noteq> 13)
                   (hd (js_split 46 (file_name f)))
              then Ok (Success
                         (TextPayload (structureText (buffer_toString caps (file_bytes f)) (file_name f)))
                         (js ''text/markdown; charset=utf-8'')
                         (converted_filename (file_name f) now (js ''md'')))
              else Ok (ServerError TypeError), P)"
  using assms txt_not_docx [OF assms(1)]
  by (simp add: POST_def handle_def request_def convert_def own_property_truthy [OF mime_md]
      content_type_def mime_md new_response_md)

lemma lower_case_ascii: "toLowerCase unicode (js ''MD'') = js ''md''"
  "toLowerCase unicode (js ''md'') = js ''md''"
  "toLowerCase unicode (js ''TXT'') = js ''txt''"
  "toLowerCase unicode (js ''txt'') = js ''txt''"
  by (simp_all add: toLowerCase_def is_ascii_def ascii_lower_def js_def)

text \<open>
  A text file with a name outside Latin-1, here the one code unit U+6587 before \<open>.txt\<close>:
  the text is structured, the header of the response refuses the name, and the handler
  answers with status 500.
\<close>

lemma text_file_name_outside_latin1:
  "POST caps now P
     (request \<lparr> file_name = [0x6587] @ js ''.txt'', file_type = t, file_bytes = b \<rparr> (js ''md''))
   = (Ok (ServerError TypeError), P)"
proof -
  let ?f = "\<lparr> file_name = [0x6587] @ js ''.txt'', file_type = t, file_bytes = b \<rparr>"
  have h1: "endsWith (file_name ?f) (js ''.txt'')" by (simp add: endsWith_def js_def)
  show ?thesis
    using text_to_markdown_response [OF h1 lower_case_ascii(2), of caps now P]
    by (simp add: js_def)
qed




section \<open>The handler: shared facts\<close>

lemmas handler_defs = POST_def handle_def request_def convert_def property_falsy_def
  content_type_def mimeTypes_def endsWith_def startsWith_def toLowerCase_def toUpperCase_def
  is_ascii_def ascii_lower_def ascii_upper_def
  unsupported_conversion_def file_extension_def converted_filename_def
  matches_image_extension_def image_extensions_def new_response_def valid_header_value_def
  header_value_normalize_def is_http_whitespace_def content_disposition_def

lemma pdf_not_docx: "endsWith name (js ''.pdf'') \<Longrightarrow> \<not> endsWith name (js ''.docx'')"
proof
  assume "endsWith name (js ''.pdf'')" and "endsWith name (js ''.docx'')"
  then have "js ''.pdf'' = drop (length (js ''.docx'') - length (js ''.pdf'')) (js ''.docx'')"
    by (rule endsWith_shorter) (simp add: js_def)
  then show False by (simp add: js_def)
qed

text \<open>
  What the handler answers for a file whose name ends in \<open>.pdf\<close> and the output type
  \<open>txt\<close>: the string \<open>extractPdfText\<close> returns if the name fits the header, status 500
  if not.
\<close>

lemma pdf_to_text_response:
  assumes "endsWith (file_name f) (js ''.pdf'')"
    and "toLowerCase (unicode_toLowerCase caps) requested = js ''txt''"
  shows "POST caps now P (request f requested)
           = (if list_all (\<lambda>c. c \<le> 255 \<and> c \<noteq> 0 \<and> c \<noteq> 10 \<and> c \<noteq> 13)
                   (hd (js_split 46 (file_name f)))
              then Ok (Success (TextPayload (extractPdfText (pdfParse caps) (file_bytes f)))
                         (js ''text/plain; charset=utf-8'')
                         (converted_filename (file_name f) now (js ''txt'')))
              else Ok (ServerError TypeError), P)"
  using assms
  by (simp add: POST_def handle_def request_def convert_def own_property_truthy [OF mime_txt]
      content_type_def mime_txt new_response_txt)

lemma kilobytes_no_newline: "10 \<notin> set (kilobytes_toFixed1 n)"
  by (simp add: kilobytes_toFixed1_def Let_def show_nat_no_newline js_def)

lemma no_text_report_not_blank: "trim (no_text_report pages nbytes) \<noteq> []"
  by (rule trim_not_Nil) (simp_all add: no_text_report_def is_white_space_def)

lemma unable_report_not_blank: "trim (unable_report message) \<noteq> []"
  by (rule trim_not_Nil) (simp_all add: unable_report_def is_white_space_def)

lemma extracted_text_not_blank: "trim (extracted_text t) \<noteq> []"
  by (rule trim_not_Nil) (simp_all add: extracted_text_def is_white_space_def)

text \<open>Whatever the parser does, the string \<open>extractPdfText\<close> returns is never blank.\<close>

lemma pdf_payload_never_blank: "trim (extractPdfText parser buffer) \<noteq> []"
  by (simp add: extractPdfText_def no_text_report_not_blank unable_report_not_blank
      extracted_text_not_blank split: sum.splits)

section \<open>Text of a PDF: a valid file without text\<close>

text \<open>
  For a parser that succeeds with empty or whitespace-only text, \<open>extractPdfText\<close>
  returns the diagnostic report. Its lines are fixed but for two: the page count, and
  the size of the file, which is the byte count \<open>n\<close> in kilobytes to one decimal, that
  is \<open>(10 n + 512) div 1024\<close> tenths.
\<close>

lemma report_of_a_pdf_without_text:
  assumes "parser buffer = Inr data" and "trim (pdf_text data) = []"
  shows "extractPdfText parser buffer =
     js_join [10]
       [[0x26A0, 0xFE0F] @ js '' PDF Processing Issue'',
        [],
        [0xD83D, 0xDCC4] @ js '' **PDF Information:**'',
        [0x2022, 0x20] @ js ''Total pages: '' @ show_nat (numpages data),
        [0x2022, 0x20] @ js ''File size: ''
          @ show_nat ((10 * length buffer + 512) div 1024 div 10) @ js ''.''
          @ show_nat ((10 * length buffer + 512) div 1024 mod 10) @ js ''KB'',
        [0x2022, 0x20] @ js ''Status: Valid PDF format'',
        [],
        [0x274C] @ js '' **Text Extraction Failed:**'',
        js ''No extractable text found in the PDF.'',
        [],
        [0xD83D, 0xDD0D] @ js '' **Possible reasons:**'',
        [0x2022, 0x20] @ js ''PDF contains only images (scanned document)'',
        [0x2022, 0x20] @ js ''Text is embedded as graphics'',
        [0x2022, 0x20] @ js ''PDF uses complex formatting'',
        [0x2022, 0x20] @ js ''Password protection or security restrictions'',
        [],
        [0xD83D, 0xDCA1] @ js '' **This converter works perfectly with:**'',
        [0x2022, 0x20] @ js ''Word documents (DOCX '' @ [0x2192] @ js '' Markdown)'',
        [0x2022, 0x20] @ js ''Images (PNG, JPG conversions)'',
        [0x2022, 0x20] @ js ''Spreadsheets (CSV '' @ [0x2192] @ js '' JSON)'']"
  using assms
  by (simp add: extractPdfText_def no_text_report_def kilobytes_toFixed1_def Let_def bullet_def)

text \<open>
  With a file name that fits the header, the handler answers with status 200 and that
  report, which is not blank.
\<close>

lemma valid_pdf_without_text_is_reported:
  assumes "endsWith (file_name f) (js ''.pdf'')"
    and "toLowerCase (unicode_toLowerCase caps) requested = js ''txt''"
    and "list_all (\<lambda>c. c \<le> 255 \<and> c \<noteq> 0 \<and> c \<noteq> 10 \<and> c \<noteq> 13) (hd (js_split 46 (file_name f)))"
    and "pdfParse caps (file_bytes f) = Inr data" and "trim (pdf_text data) = []"
  shows "POST caps now P (request f requested)
           = (Ok (Success (TextPayload (extractPdfText (pdfParse caps) (file_bytes f)))
                    (js ''text/plain; charset=utf-8'')
                    (converted_filename (file_name f) now (js ''txt''))), P)
         \<and> extractPdfText (pdfParse caps) (file_bytes f)
             = no_text_report (numpages data) (length (file_bytes f))
         \<and> trim (extractPdfText (pdfParse caps) (file_bytes f)) \<noteq> []"
  using pdf_to_text_response [OF assms(1,2), of now P] assms(3,4,5)
  by (simp add: pdf_payload_never_blank) (simp add: extractPdfText_def)

text \<open>
  The example of the specification, with a file of 1536 bytes: three pages, and a size
  of 1.5 KB.
\<close>

lemma scanned_pdf_report:
  "js_split 10 (extractPdfText (pdfParse sample_environment) (3 # replicate 1535 32))
     = [[0x26A0, 0xFE0F] @ js '' PDF Processing Issue'',
        [],
        [0xD83D, 0xDCC4] @ js '' **PDF Information:**'',
        [0x2022, 0x20] @ js ''Total pages: 3'',
        [0x2022, 0x20] @ js ''File size: 1.5KB'',
        [0x2022, 0x20] @ js ''Status: Valid PDF format'',
        [],
        [0x274C] @ js '' **Text Extraction Failed:**'',
        js ''No extractable text found in the PDF.'',
        [],
        [0xD83D, 0xDD0D] @ js '' **Possible reasons:**'',
        [0x2022, 0x20] @ js ''PDF contains only images (scanned document)'',
        [0x2022, 0x20] @ js ''Text is embedded as graphics'',
        [0x2022, 0x20] @ js ''PDF uses complex formatting'',
        [0x2022, 0x20] @ js ''Password protection or security restrictions'',
        [],
        [0xD83D, 0xDCA1] @ js '' **This converter works perfectly with:**'',
        [0x2022, 0x20] @ js ''Word documents (DOCX '' @ [0x2192] @ js '' Markdown)'',
        [0x2022, 0x20] @ js ''Images (PNG, JPG conversions)'',
        [0x2022, 0x20] @ js ''Spreadsheets (CSV '' @ [0x2192] @ js '' JSON)'']"
proof -
  have parsed: "pdfParse sample_environment (3 # replicate 1535 32)
                  = Inr \<lparr> pdf_text = replicate 1535 32, numpages = 3 \<rparr>"
    by (simp add: sample_environment_def)
  have blank: "trim (pdf_text \<lparr> pdf_text = replicate 1535 32, numpages = 3 \<rparr>) = []"
    by (simp add: trim_def is_white_space_def)
  have pages: "show_nat 3 = js ''3''" and one: "show_nat (Suc 0) = js ''1''"
    and five: "show_nat 5 = js ''5''"
    by (simp_all add: show_nat.simps js_def)
  show ?thesis
    unfolding report_of_a_pdf_without_text
                [of "pdfParse sample_environment" "3 # replicate 1535 32", OF parsed blank]
    by (subst js_split_join) (simp_all add: pages one five, simp_all add: js_def)
qed

text \<open>
  Claim C3, at a valid PDF of three pages and 1536 bytes without text, uploaded under a
  name outside Latin-1: the one code unit U+6587 before \<open>.pdf\<close>. The claim has every
  such file answered with a success that carries the report, never with a failure. The
  parser succeeds and \<open>extractPdfText\<close> returns the report, with the page count and the
  size in its lines. But the handler puts the file name into the \<open>Content-Disposition\<close>
  header unchecked, the constructor of the response throws, and the handler answers with
  status 500. The same bytes under the name \<open>scan.pdf\<close> are answered with the report.
\<close>

theorem valid_pdf_under_unicode_name_fails:
  "pdfParse sample_environment (3 # replicate 1535 32)
     = Inr \<lparr> pdf_text = replicate 1535 32, numpages = 3 \<rparr>
   \<and> trim (replicate 1535 32) = []
   \<and> js_split 10 (extractPdfText (pdfParse sample_environment) (3 # replicate 1535 32))
     = [[0x26A0, 0xFE0F] @ js '' PDF Processing Issue'',
        [],
        [0xD83D, 0xDCC4] @ js '' **PDF Information:**'',
        [0x2022, 0x20] @ js ''Total pages: 3'',
        [0x2022, 0x20] @ js ''File size: 1.5KB'',
        [0x2022, 0x20] @ js ''Status: Valid PDF format'',
        [],
        [0x274C] @ js '' **Text Extraction Failed:**'',
        js ''No extractable text found in the PDF.'',
        [],
        [0xD83D, 0xDD0D] @ js '' **Possible reasons:**'',
        [0x2022, 0x20] @ js ''PDF contains only images (scanned document)'',
        [0x2022, 0x20] @ js ''Text is embedded as graphics'',
        [0x2022, 0x20] @ js ''PDF uses complex formatting'',
        [0x2022, 0x20] @ js ''Password protection or security restrictions'',
        [],
        [0xD83D, 0xDCA1] @ js '' **This converter works perfectly with:**'',
        [0x2022, 0x20] @ js ''Word documents (DOCX '' @ [0x2192] @ js '' Markdown)'',
        [0x2022, 0x20] @ js ''Images (PNG, JPG conversions)'',
        [0x2022, 0x20] @ js ''Spreadsheets (CSV '' @ [0x2192] @ js '' JSON)'']
   \<and> POST sample_environment 0 pristine
       (request \<lparr> file_name = [0x6587] @ js ''.pdf'', file_type = js ''application/pdf'',
                   file_bytes = 3 # replicate 1535 32 \<rparr> (js ''txt''))
     = (Ok (ServerError TypeError), pristine)
   \<and> status (ServerError TypeError) = 500
   \<and> POST sample_environment 0 pristine
       (request \<lparr> file_name = js ''scan.pdf'', file_type = js ''application/pdf'',
                   file_bytes = 3 # replicate 1535 32 \<rparr> (js ''txt''))
     = (Ok (Success
              (TextPayload (extractPdfText (pdfParse sample_environment) (3 # replicate 1535 32)))
              (js ''text/plain; charset=utf-8'') (js ''scan-converted-0.txt'')), pristine)"
proof -
  let ?bad = "\<lparr> file_name = [0x6587] @ js ''.pdf'', file_type = js ''application/pdf'',
                file_bytes = 3 # replicate 1535 32 \<rparr>"
  let ?good = "\<lparr> file_name = js ''scan.pdf'', file_type = js ''application/pdf'',
                 file_bytes = 3 # replicate 1535 32 \<rparr>"
  have b: "endsWith (file_name ?bad) (js ''.pdf'')" by (simp add: endsWith_def js_def)
  have g: "endsWith (file_name ?good) (js ''.pdf'')" by (simp add: endsWith_def js_def)
  have n: "converted_filename (js ''scan.pdf'') 0 (js ''txt'') = js ''scan-converted-0.txt''"
    by (simp add: converted_filename_def js_def show_nat.simps)
  have "POST sample_environment 0 pristine (request ?bad (js ''txt''))
          = (Ok (ServerError TypeError), pristine)"
    using pdf_to_text_response [OF b lower_case_ascii(4), of sample_environment 0 pristine]
    by (simp add: js_def)
  moreover have "POST sample_environment 0 pristine (request ?good (js ''txt''))
          = (Ok (Success
                   (TextPayload (extractPdfText (pdfParse sample_environment) (3 # replicate 1535 32)))
                   (js ''text/plain; charset=utf-8'') (js ''scan-converted-0.txt'')), pristine)"
    using pdf_to_text_response [OF g lower_case_ascii(4), of sample_environment 0 pristine] n
    by (simp, simp add: js_def)
  moreover have "pdfParse sample_environment (3 # replicate 1535 32)
                   = Inr \<lparr> pdf_text = replicate 1535 32, numpages = 3 \<rparr>"
    by (simp add: sample_environment_def)
  moreover have "trim (replicate 1535 32) = []"
    by (simp add: trim_def is_white_space_def)
  ultimately show ?thesis
    using scanned_pdf_report by simp
qed

section \<open>Text of a PDF: a parser that throws\<close>




section \<open>The whitelist of output types\<close>

text \<open>
  For an output type that is no key of \<open>mimeTypes\<close> and no property name of
  \<open>Object.prototype\<close>, the handler answers \<open>Unsupported output type\<close> whatever the file
  is, and this message is none of the messages for an unsupported pair.
\<close>

lemma whitelist_gate:
  assumes "toLowerCase (unicode_toLowerCase caps) requested = k" and "map_of mimeTypes k = None"
    and "k \<noteq> js ''__proto__''" and "k \<notin> set object_prototype_methods"
  shows "POST caps now pristine (request f requested)
           = (Ok (ClientError (js ''Unsupported output type'')), pristine)"
  using assms
  by (simp add: POST_def handle_def request_def property_falsy_def get_property_def pristine_def)

lemma whitelist_gate_example:
  "POST caps now pristine (request f (js ''XLSX''))
     = (Ok (ClientError (js ''Unsupported output type'')), pristine)"
  by (rule whitelist_gate [where k = "js ''xlsx''"])
     (simp_all add: toLowerCase_def is_ascii_def ascii_lower_def mimeTypes_def
        object_prototype_methods_def, simp_all add: js_def)

lemma rejections_are_distinct:
  "js ''Unsupported output type'' \<noteq> unsupported_conversion caps name k"
  by (simp add: unsupported_conversion_def js_def)

text \<open>
  Claim C5, at the output type \<open>constructor\<close> with the file \<open>notes.txt\<close>. The claim has
  the request rejected by the whitelist, before the bytes are read, with the error of
  the whitelist. The test \<open>!mimeTypes[outputType]\<close> reads the inherited property
  \<open>Object.prototype.constructor\<close>, which is truthy, so the request goes on to the chain of
  conversions and is rejected there, with the error for an unsupported pair.
\<close>

theorem inherited_name_passes_the_whitelist:
  "POST caps now pristine
     (request \<lparr> file_name = js ''notes.txt'', file_type = t, file_bytes = b \<rparr> (js ''constructor''))
   = (Ok (ClientError (js ''Conversion from TXT to CONSTRUCTOR is not supported. Please check the supported conversions list.'')),
      pristine)"
  by (simp add: handler_defs eval_defs)

section \<open>The source kind\<close>

text \<open>
  The declared MIME type of the file is read for the image outputs only, and the
  lower-case suffix \<open>.csv\<close> selects the CSV pipeline.
\<close>

lemma mime_only_for_images:
  "k \<noteq> js ''png'' \<Longrightarrow> k \<noteq> js ''jpg'' \<Longrightarrow> k \<noteq> js ''jpeg'' \<Longrightarrow>
   convert caps P k (f\<lparr>file_type := t\<rparr>) = convert caps P k f"
  by (simp add: convert_def Let_def)

lemma lower_case_suffix_runs_the_pipeline:
  "POST sample_environment 0 pristine
     (request \<lparr> file_name = js ''data.csv'', file_type = [], file_bytes = sample_csv \<rparr> (js ''json''))
   = (Ok (Success
            (TextPayload (json_stringify sample_environment
               (csv_envelope (js ''data.csv'')
                  [[(js ''name'', JStr (js ''A'')), (js ''meta'', JObj [(js ''age'', JNum 30)])]]
                  (Some [js ''name'', js ''meta.age'']))))
            (js ''application/json; charset=utf-8'') (js ''data-converted-0.json'')), pristine)"
  by (simp add: handler_defs eval_defs sample_environment_def sample_csv_def polluting_csv_def
      show_nat.simps)

text \<open>
  Claim C6, at the file name \<open>DATA.CSV\<close> with the output type \<open>json\<close>. The claim has the
  suffix matched without regard to case, as for \<open>data.csv\<close>. The test
  \<open>file.name.endsWith(".csv")\<close> is case-sensitive, no branch matches, and the handler
  answers that the conversion from CSV to JSON is not supported. Only the image branch
  matches its extensions with the flag \<open>i\<close>.
\<close>

theorem upper_case_suffix_is_not_recognised:
  "POST caps now P
     (request \<lparr> file_name = js ''DATA.CSV'', file_type = t, file_bytes = b \<rparr> (js ''json''))
   = (Ok (ClientError (js ''Conversion from CSV to JSON is not supported. Please check the supported conversions list.'')),
      P)"
  by (simp add: handler_defs eval_defs)

section \<open>Repeated calls\<close>

text \<open>The time of the call is used for the suggested file name only.\<close>

lemma new_response_at_any_time:
  "new_response converted mime (converted_filename name now outputType)
     = (if valid_header_value mime
           \<and> list_all (\<lambda>c. c \<le> 255 \<and> c \<noteq> 0 \<and> c \<noteq> 10 \<and> c \<noteq> 13) (hd (js_split 46 name))
           \<and> list_all (\<lambda>c. c \<le> 255 \<and> c \<noteq> 0 \<and> c \<noteq> 10 \<and> c \<noteq> 13) outputType
        then Ok (Success converted mime (converted_filename name now outputType))
        else Throw TypeError)"
  by (simp add: new_response_def valid_filename_header)

lemma timestamp_only_in_filename:
  "POST caps t1 P req = (Ok (Success body mime filename1), P1) \<Longrightarrow>
   \<exists>filename2. POST caps t2 P req = (Ok (Success body mime filename2), P1)"
  by (auto simp: POST_def handle_def Let_def new_response_at_any_time
      split: sum.splits option.splits form_entry.splits if_splits prod.splits outcome.splits)

text \<open>
  Claim C9, at a CSV file with the header \<open>a.b,__proto__.a\<close> and the row \<open>6,5\<close>,
  converted to \<open>json\<close> twice in the same process. In the first call the key
  \<open>__proto__.a\<close> walks from the result to \<open>Object.prototype\<close> and writes the property
  \<open>a\<close> there; the call succeeds. In the second call, on the same bytes, name and output
  type, the key \<open>a.b\<close> reads the inherited number under \<open>a\<close>, the assignment on it
  throws, and the handler answers with status 500.
\<close>

theorem repeated_call_differs:
  "POST sample_environment 1 pristine
     (request \<lparr> file_name = js ''rows.csv'', file_type = [], file_bytes = polluting_csv \<rparr> (js ''json''))
   = (Ok (Success
            (TextPayload (json_stringify sample_environment
               (csv_envelope (js ''rows.csv'') [[(js ''a'', JObj [(js ''b'', JNum 6)])]]
                  (Some [js ''a.b'', js ''__proto__.a'']))))
            (js ''application/json; charset=utf-8'') (js ''rows-converted-1.json'')),
      [(js ''a'', JNum 5)])
   \<and> POST sample_environment 2 [(js ''a'', JNum 5)]
     (request \<lparr> file_name = js ''rows.csv'', file_type = [], file_bytes = polluting_csv \<rparr> (js ''json''))
   = (Ok (ServerError TypeError), [(js ''a'', JNum 5)])"
  by (simp add: handler_defs eval_defs sample_environment_def sample_csv_def polluting_csv_def
      show_nat.simps)

section \<open>The round trip\<close>

subsection \<open>Own properties\<close>

lemma map_of_replace_own:
  "map_of (replace_own k v R) k' = (if k' = k \<and> map_of R k \<noteq> None then Some v else map_of R k')"
  by (induction R) (auto simp: replace_own_def)

lemma map_of_insert_index:
  "map_of R k = None \<Longrightarrow> map_of (insert_index k v R) k' = (if k' = k then Some v else map_of R k')"
  by (induction R) (auto split: if_splits)

lemma map_of_define_own:
  "map_of (define_own k v R) k' = (if k' = k then Some v else map_of R k')"
  by (auto simp: define_own_def map_of_replace_own map_of_insert_index map_add_def
      split: option.splits)

lemma replace_own_absent: "map_of R k = None \<Longrightarrow> replace_own k x R = R"
  by (induction R) (auto simp: replace_own_def split: if_splits)

lemma replace_after_insert:
  "map_of R k = None \<Longrightarrow> replace_own k x (insert_index k y R) = insert_index k x R"
proof (induction R)
  case Nil
  then show ?case by (simp add: replace_own_def)
next
  case (Cons e R)
  obtain k' v' where e: "e = (k', v')" by (cases e)
  with Cons.prems have ne: "k' \<noteq> k" and absent: "map_of R k = None"
    by (auto split: if_splits)
  have cons: "replace_own k x (a # xs) = (if fst a = k then (fst a, x) else a) # replace_own k x xs"
    for a xs by (cases a) (simp add: replace_own_def)
  show ?case
    using Cons.IH [OF absent] ne e replace_own_absent [OF absent, of x]
    by (simp add: cons)
qed

lemma replace_after_define:
  "map_of R k = None \<Longrightarrow> replace_own k x (define_own k y R) = define_own k x R"
proof -
  assume absent: "map_of R k = None"
  have "replace_own k x (R @ [(k, y)]) = R @ [(k, x)]"
    using replace_own_absent [OF absent, of x] by (simp add: replace_own_def)
  then show ?thesis
    using absent by (simp add: define_own_def replace_after_insert)
qed

lemma replace_own_twice: "replace_own k x (replace_own k y R) = replace_own k x R"
  by (induction R) (auto simp: replace_own_def)

lemma replace_is_define: "map_of R k \<noteq> None \<Longrightarrow> replace_own k x R = define_own k x R"
  by (simp add: define_own_def)

lemma define_own_append:
  "map_of R k = None \<Longrightarrow> \<not> is_array_index k \<Longrightarrow> define_own k v R = R @ [(k, v)]"
  by (simp add: define_own_def)

subsection \<open>The walk of unflattenObject below a segment\<close>

lemma split_plain: "46 \<notin> set k \<Longrightarrow> js_split 46 k = [k]"
  by (rule js_split_no_sep)

lemma split_under: "46 \<notin> set k \<Longrightarrow> js_split 46 (k @ js ''.'' @ key) = k # js_split 46 key"
  by (simp add: js_def js_split_append_sep)

lemma get_property_plain:
  "k \<noteq> js ''__proto__'' \<Longrightarrow> k \<notin> set object_prototype_methods \<Longrightarrow>
   get_property [] R k = (case map_of R k of Some v \<Rightarrow> Own v | None \<Rightarrow> Undefined)"
  by (simp add: get_property_def split: option.splits)

lemma walk_under:
  assumes "k \<noteq> js ''__proto__''" and "k \<notin> set object_prototype_methods"
    and "map_of R k = None \<or> (\<exists>c. map_of R k = Some (JObj c))"
  shows "walk [] R (k # ks) l v =
     (case walk [] (child_of R k) ks l v of
        Ok (c', P') \<Rightarrow> Ok (define_own k (JObj c') R, P')
      | Throw e \<Rightarrow> Throw e
      | Unmodelled \<Rightarrow> Unmodelled)"
proof (cases "map_of R k")
  case None
  then show ?thesis
    using assms(1,2)
    by (simp add: get_property_plain landing_of_def set_property_def child_of_def attach_def
        replace_after_define split: outcome.splits)
next
  case (Some c)
  with assms(3) obtain child where c: "map_of R k = Some (JObj child)" by auto
  then show ?thesis
    using assms(1,2)
    by (simp add: get_property_plain landing_of_def child_of_def attach_def replace_is_define
        split: outcome.splits)
qed


lemma define_own_twice: "define_own k x (define_own k y R) = define_own k x R"
proof (cases "map_of R k")
  case None
  have "define_own k x (define_own k y R) = replace_own k x (define_own k y R)"
    by (simp add: define_own_def [of k x] map_of_define_own)
  with None show ?thesis by (simp add: replace_after_define)
next
  case (Some a)
  then show ?thesis
    by (simp add: define_own_def map_of_replace_own replace_own_twice)
qed

lemma define_own_not_Nil [simp]: "define_own k v R \<noteq> []"
proof -
  have "map_of (define_own k v R) k = Some v" by (simp add: map_of_define_own)
  then show ?thesis by auto
qed

lemma walk_proto_mono: "walk P R ks l v = Ok (R', P') \<Longrightarrow> P' = [] \<Longrightarrow> P = []"
proof (induction ks arbitrary: R R')
  case Nil
  then show ?case by (auto split: outcome.splits)
next
  case (Cons k ks)
  show ?case
  proof (cases "landing_of (get_property P R k)")
    case Create
    with Cons.prems obtain cur child where "walk P [] ks l v = Ok (child, P')"
      by (auto simp: attach_def split: outcome.splits)
    with Cons.IH Cons.prems(2) show ?thesis by blast
  next
    case (Descend c)
    with Cons.prems obtain child where "walk P c ks l v = Ok (child, P')"
      by (auto simp: attach_def split: outcome.splits)
    with Cons.IH Cons.prems(2) show ?thesis by blast
  next
    case OnPrimitive
    with Cons.prems show ?thesis by (auto split: outcome.splits)
  next
    case OnPrototype
    with Cons.prems show ?thesis
      by (auto simp: prototype_assign_def split: outcome.splits if_splits jsval.splits)
  next
    case Beyond
    with Cons.prems show ?thesis by simp
  qed
qed

lemma unflatten_loop_proto_mono:
  "unflatten_loop P ob L R = (X, P') \<Longrightarrow> P' = [] \<Longrightarrow> P = []"
proof (induction L arbitrary: P R)
  case Nil
  then show ?case by (auto split: if_splits)
next
  case (Cons e L)
  obtain key v where e: "e = (key, v)" by (cases e)
  show ?case
  proof (cases "walk P R (butlast (js_split 46 key)) (last (js_split 46 key)) v")
    case (Ok res)
    obtain R1 P1 where res: "res = (R1, P1)" by (cases res)
    with Cons.prems e Ok have "unflatten_loop P1 ob L R1 = (X, P') \<or> P = P'"
      by (auto split: if_splits)
    then show ?thesis
    proof
      assume "unflatten_loop P1 ob L R1 = (X, P')"
      with Cons.IH Cons.prems(2) have "P1 = []" by blast
      with Ok res show ?thesis using walk_proto_mono by blast
    next
      assume "P = P'"
      with Cons.prems(2) show ?thesis by simp
    qed
  next
    case (Throw x)
    with Cons.prems e show ?thesis by (auto split: if_splits)
  next
    case Unmodelled
    with Cons.prems e show ?thesis by (auto split: if_splits)
  qed
qed

lemma unflatten_loop_step:
  assumes "hasOwnProperty_callable [] ob"
    and "walk [] R (butlast (js_split 46 key)) (last (js_split 46 key)) v = Ok (R1, [])"
  shows "unflatten_loop [] ob ((key, v) # L) R = unflatten_loop [] ob L R1"
  using assms by simp

lemma unflatten_loop_Cons_Ok:
  assumes "unflatten_loop [] ob ((key, v) # L) R = (Ok C, [])"
  obtains R1 where "walk [] R (butlast (js_split 46 key)) (last (js_split 46 key)) v = Ok (R1, [])"
    and "unflatten_loop [] ob L R1 = (Ok C, [])"
proof (cases "walk [] R (butlast (js_split 46 key)) (last (js_split 46 key)) v")
  case (Ok res)
  obtain R1 P1 where res: "res = (R1, P1)" by (cases res)
  with assms Ok have run: "unflatten_loop P1 ob L R1 = (Ok C, [])"
    by (auto split: if_splits)
  then have "P1 = []" using unflatten_loop_proto_mono by blast
  with Ok res run that show ?thesis by simp
next
  case (Throw x)
  with assms show ?thesis by (auto split: if_splits)
next
  case Unmodelled
  with assms show ?thesis by (auto split: if_splits)
qed

lemma unflatten_under:
  assumes k: "46 \<notin> set k" "k \<noteq> js ''__proto__''" "k \<notin> set object_prototype_methods"
    and c: "hasOwnProperty_callable [] ob"
  shows "L \<noteq> [] \<Longrightarrow> map_of R k = None \<or> (\<exists>c. map_of R k = Some (JObj c)) \<Longrightarrow>
         unflatten_loop [] ob' L (child_of R k) = (Ok C, []) \<Longrightarrow>
         unflatten_loop [] ob (map (under k) L) R = (Ok (define_own k (JObj C) R), [])"
proof (induction L arbitrary: R)
  case Nil
  then show ?case by simp
next
  case (Cons e L)
  obtain key v where e: "e = (key, v)" by (cases e)
  let ?ss = "js_split 46 key"
  have "unflatten_loop [] ob' ((key, v) # L) (child_of R k) = (Ok C, [])"
    using Cons.prems(3) unfolding e .
  then obtain c1 where
      inner: "walk [] (child_of R k) (butlast ?ss) (last ?ss) v = Ok (c1, [])"
      and rest: "unflatten_loop [] ob' L c1 = (Ok C, [])"
    by (rule unflatten_loop_Cons_Ok)
  let ?R1 = "define_own k (JObj c1) R"
  have split: "js_split 46 (k @ js ''.'' @ key) = k # ?ss"
    using k(1) by (rule split_under)
  have "walk [] R (butlast (k # ?ss)) (last (k # ?ss)) v = Ok (?R1, [])"
    using walk_under [OF k(2,3) Cons.prems(2), of "butlast ?ss" "last ?ss" v] inner by simp
  then have step: "unflatten_loop [] ob (map (under k) (e # L)) R
                     = unflatten_loop [] ob (map (under k) L) ?R1"
    using c e split by (simp add: under_def)
  show ?case
  proof (cases "L = []")
    case True
    with rest have "C = c1" by (auto split: if_splits)
    with step True show ?thesis by simp
  next
    case False
    have child: "child_of ?R1 k = c1" by (simp add: child_of_def map_of_define_own)
    have "unflatten_loop [] ob (map (under k) L) ?R1 = (Ok (define_own k (JObj C) ?R1), [])"
      using False rest by (intro Cons.IH) (simp_all add: child map_of_define_own)
    with step show ?thesis by (simp add: define_own_twice)
  qed
qed

lemma unflatten_loop_append:
  assumes "unflatten_loop [] ob xs R = (Ok R', [])"
  shows "unflatten_loop [] ob (xs @ ys) R = unflatten_loop [] ob ys R'"
  using assms
proof (induction xs arbitrary: R)
  case Nil
  then show ?case by (auto split: if_splits)
next
  case (Cons e xs)
  obtain key v where e: "e = (key, v)" by (cases e)
  have "unflatten_loop [] ob ((key, v) # xs) R = (Ok R', [])"
    using Cons.prems unfolding e .
  then obtain R1 where
      w: "walk [] R (butlast (js_split 46 key)) (last (js_split 46 key)) v = Ok (R1, [])"
      and rest: "unflatten_loop [] ob xs R1 = (Ok R', [])"
    by (rule unflatten_loop_Cons_Ok)
  have c: "hasOwnProperty_callable [] ob"
    using Cons.prems e by (auto split: if_splits)
  show ?case
    using Cons.IH [OF rest] w c e by simp
qed

subsection \<open>Objects in the order of enumeration\<close>

lemma ascending_Cons:
  "ascending_indices (e # I) =
     (is_array_index (fst e) \<and> (\<forall>x\<in>set I. digits_val (fst e) < digits_val (fst x)) \<and>
      ascending_indices I)"
  by (auto simp: ascending_indices_def)

lemma insert_index_front:
  "(\<forall>e\<in>set L. \<not> digits_val (fst e) < digits_val k) \<Longrightarrow> insert_index k v L = (k, v) # L"
  by (cases L) auto

lemma insert_index_filter:
  "ascending_indices I \<Longrightarrow> (k, v) \<in> set I \<Longrightarrow> \<not> S k \<Longrightarrow>
   insert_index k v (filter (\<lambda>e. S (fst e)) I) = filter (\<lambda>e. S (fst e) \<or> fst e = k) I"
proof (induction I)
  case Nil
  then show ?case by simp
next
  case (Cons e I)
  obtain k' v' where e: "e = (k', v')" by (cases e)
  from Cons.prems(1) e have idx: "is_array_index k'"
    and above: "\<forall>x\<in>set I. digits_val k' < digits_val (fst x)" and asc: "ascending_indices I"
    by (simp_all add: ascending_Cons)
  show ?case
  proof (cases "(k, v) = (k', v')")
    case True
    then have kk: "k' = k" "v' = v" by simp_all
    have "\<forall>x\<in>set (filter (\<lambda>e. S (fst e)) I). \<not> digits_val (fst x) < digits_val k"
      using above kk by fastforce
    then have "insert_index k v (filter (\<lambda>e. S (fst e)) I) = (k, v) # filter (\<lambda>e. S (fst e)) I"
      by (rule insert_index_front)
    moreover have "filter (\<lambda>e. S (fst e) \<or> fst e = k) I = filter (\<lambda>e. S (fst e)) I"
      using above kk by (intro filter_cong) auto
    ultimately show ?thesis using e kk Cons.prems(3) by simp
  next
    case False
    with Cons.prems(2) e have mem: "(k, v) \<in> set I" by auto
    with above have lt: "digits_val k' < digits_val k" by fastforce
    then have ne: "k' \<noteq> k" by auto
    note IH = Cons.IH [OF asc mem Cons.prems(3)]
    show ?thesis
      using IH e idx lt ne by simp
  qed
qed

lemma map_of_filter_None: "\<not> S k \<Longrightarrow> map_of (filter (\<lambda>e. S (fst e)) I) k = None"
  by (induction I) auto

lemma ascending_all_index: "ascending_indices I \<Longrightarrow> e \<in> set I \<Longrightarrow> is_array_index (fst e)"
  by (auto simp: ascending_indices_def list_all_iff)

lemma build_Cons: "build (e # L) acc = build L (define_own (fst e) (snd e) acc)"
  by (simp add: build_def)

lemma build_Nil [simp]: "build [] acc = acc"
  by (simp add: build_def)

lemma build_append: "build (xs @ ys) acc = build ys (build xs acc)"
  by (simp add: build_def)

lemma build_filter:
  "ascending_indices I \<Longrightarrow> set L \<subseteq> set I \<Longrightarrow> distinct (map fst L) \<Longrightarrow>
   \<forall>e\<in>set L. \<not> S (fst e) \<Longrightarrow>
   build L (filter (\<lambda>e. S (fst e)) I) = filter (\<lambda>e. S (fst e) \<or> fst e \<in> fst ` set L) I"
proof (induction L arbitrary: S)
  case Nil
  then show ?case by simp
next
  case (Cons e L)
  obtain k v where e: "e = (k, v)" by (cases e)
  from Cons.prems e have mem: "(k, v) \<in> set I" and notS: "\<not> S k" by auto
  have idx: "is_array_index k" using ascending_all_index [OF Cons.prems(1) mem] by simp
  have "define_own k v (filter (\<lambda>e. S (fst e)) I) = insert_index k v (filter (\<lambda>e. S (fst e)) I)"
    using idx notS map_of_filter_None [of S k I] by (simp add: define_own_def)
  also have "\<dots> = filter (\<lambda>e. S (fst e) \<or> fst e = k) I"
    using Cons.prems(1) mem notS by (rule insert_index_filter)
  finally have step: "define_own k v (filter (\<lambda>e. S (fst e)) I)
                        = filter (\<lambda>e. (S (fst e) \<or> fst e = k)) I" .
  have "build L (filter (\<lambda>e. (\<lambda>x. S x \<or> x = k) (fst e)) I)
          = filter (\<lambda>e. (\<lambda>x. S x \<or> x = k) (fst e) \<or> fst e \<in> fst ` set L) I"
    using Cons.prems e by (intro Cons.IH) auto
  then show ?case
    using step e by (auto simp: build_Cons intro: filter_cong)
qed

lemma build_plain_keys:
  "list_all (\<lambda>e. \<not> is_array_index (fst e)) N \<Longrightarrow> distinct (map fst N) \<Longrightarrow>
   \<forall>e\<in>set N. map_of acc (fst e) = None \<Longrightarrow> build N acc = acc @ N"
proof (induction N arbitrary: acc)
  case Nil
  then show ?case by simp
next
  case (Cons e N)
  have step: "define_own (fst e) (snd e) acc = acc @ [e]"
    using Cons.prems by (simp add: define_own_append)
  have fresh: "map_of (acc @ [e]) (fst x) = None" if "x \<in> set N" for x
  proof -
    from Cons.prems(2) have "fst e \<notin> fst ` set N" by simp
    with that have "fst x \<noteq> fst e" by (metis imageI)
    moreover from that Cons.prems(3) have "map_of acc (fst x) = None" by simp
    ultimately show ?thesis by (cases e) (simp add: map_add_def)
  qed
  have "build N (acc @ [e]) = (acc @ [e]) @ N"
    using Cons.prems fresh by (intro Cons.IH) auto
  then show ?case by (simp add: build_Cons step)
qed

lemma js_object_parts:
  assumes "js_object r"
  obtains I N where "r = I @ N" and "ascending_indices I"
    and "list_all (\<lambda>e. \<not> is_array_index (fst e)) N"
proof
  let ?I = "takeWhile (is_array_index \<circ> fst) r" and ?N = "dropWhile (is_array_index \<circ> fst) r"
  show "r = ?I @ ?N" by simp
  have "list_all (\<lambda>e. is_array_index (fst e)) ?I"
    by (auto simp: list_all_iff dest: set_takeWhileD)
  moreover have "sorted_wrt (\<lambda>a b. digits_val (fst a) < digits_val (fst b)) ?I"
    using assms by (simp add: js_object_def index_order_def takeWhile_map sorted_wrt_map)
  ultimately show "ascending_indices ?I" by (simp add: ascending_indices_def)
  show "list_all (\<lambda>e. \<not> is_array_index (fst e)) ?N"
    using assms by (simp add: js_object_def index_order_def dropWhile_map list_all_iff)
qed

lemma build_permuted:
  assumes "distinct (map fst (I @ N))" and "ascending_indices I"
    and "list_all (\<lambda>e. \<not> is_array_index (fst e)) N"
    and "set L = set I" and "distinct (map fst L)"
  shows "build (L @ N) [] = I @ N"
proof -
  have "build L (filter (\<lambda>e. (\<lambda>x. False) (fst e)) I)
          = filter (\<lambda>e. (\<lambda>x. False) (fst e) \<or> fst e \<in> fst ` set L) I"
    using assms(2,4,5) by (intro build_filter) auto
  then have "build L [] = filter (\<lambda>e. fst e \<in> fst ` set I) I"
    using assms(4) by simp
  also have "\<dots> = I" by (induction I) auto
  finally have first: "build L [] = I" .
  have "build N I = I @ N"
    using assms(1,3)
    by (intro build_plain_keys) (auto simp: map_of_eq_None_iff)
  with first show ?thesis by (simp add: build_append)
qed

lemma build_js_object: "js_object r \<Longrightarrow> build r [] = r"
proof -
  assume r: "js_object r"
  then obtain I N where parts: "r = I @ N" "ascending_indices I"
      "list_all (\<lambda>e. \<not> is_array_index (fst e)) N"
    by (rule js_object_parts)
  from r parts have d: "distinct (map fst (I @ N))" by (simp add: js_object_def)
  then have "distinct (map fst I)" by simp
  with d parts show ?thesis
    using build_permuted [of I N I] by simp
qed

subsection \<open>unflattenObject on the flat form\<close>

lemma flat_rel_scalar:
  "\<not> is_object v \<Longrightarrow> flat_rel ((k, v) # rest) = (k, v) # flat_rel rest"
  by (cases v) (simp_all add: is_object_def)

lemma flat_rel_nested:
  "flat_rel ((k, JObj nested) # rest) = map (under k) (flat_rel nested) @ flat_rel rest"
  by simp

lemma record_ok_scalar:
  "\<not> is_object v \<Longrightarrow> record_ok ((k, v) # rest) = (key_ok k \<and> record_ok rest)"
  by (cases v) (simp_all add: is_object_def)

lemma flat_rel_not_Nil: "record_ok es \<Longrightarrow> es \<noteq> [] \<Longrightarrow> flat_rel es \<noteq> []"
proof (induction es rule: record_ok.induct)
  case 1
  then show ?case by simp
next
  case (2 k v rest)
  show ?case
  proof (cases v)
    case (JObj nested)
    with "2.prems" have "nested \<noteq> []" and "record_ok nested" by simp_all
    with "2.IH"(1) JObj have "flat_rel nested \<noteq> []" by blast
    with JObj show ?thesis by simp
  qed simp_all
qed

lemma unflatten_scalar:
  assumes "hasOwnProperty_callable [] ob" and "key_ok k"
  shows "unflatten_loop [] ob ((k, v) # L) R = unflatten_loop [] ob L (define_own k v R)"
proof -
  from assms(2) have "js_split 46 k = [k]" and "k \<noteq> js ''__proto__''"
    by (simp_all add: key_ok_def js_split_no_sep)
  then show ?thesis
    using assms(1) by (simp add: set_property_def)
qed

lemma unflatten_flat_rel:
  assumes c: "hasOwnProperty_callable [] ob"
  shows "record_ok es \<Longrightarrow> distinct (map fst es) \<Longrightarrow> \<forall>k\<in>fst ` set es. map_of R k = None \<Longrightarrow>
         unflatten_loop [] ob (flat_rel es) R = (Ok (build es R), [])"
proof (induction es arbitrary: R rule: record_ok.induct)
  case 1
  then show ?case by simp
next
  case (2 k v rest)
  from "2.prems" have key: "key_ok k" and rest_ok: "record_ok rest"
    and rest_distinct: "distinct (map fst rest)" and k_new: "k \<notin> fst ` set rest"
    and k_fresh: "map_of R k = None"
    by (auto split: jsval.splits)
  have fresh': "\<forall>k'\<in>fst ` set rest. map_of (define_own k v R) k' = None"
    using "2.prems"(3) k_new by (auto simp: map_of_define_own)
  have tail: "unflatten_loop [] ob (flat_rel rest) (define_own k v R)
                = (Ok (build rest (define_own k v R)), [])"
    using rest_ok rest_distinct fresh' by (rule "2.IH"(2))
  show ?case
  proof (cases "is_object v")
    case False
    then have fr: "flat_rel ((k, v) # rest) = (k, v) # flat_rel rest"
      by (rule flat_rel_scalar)
    show ?thesis
      unfolding fr unflatten_scalar [OF c key] tail by (simp add: build_Cons)
  next
    case True
    then obtain nested where v: "v = JObj nested" by (cases v) (simp_all add: is_object_def)
    with "2.prems"(1) have nested: "nested \<noteq> []" "k \<notin> set object_prototype_methods"
        "js_object nested" "record_ok nested"
      by simp_all
    have "unflatten_loop [] ob (flat_rel nested) [] = (Ok (build nested []), [])"
      using v nested(4) nested(3) by (intro "2.IH"(1)) (simp_all add: js_object_def)
    then have inner: "unflatten_loop [] ob (flat_rel nested) (child_of R k) = (Ok nested, [])"
      using k_fresh nested(3) by (simp add: child_of_def build_js_object)
    have "unflatten_loop [] ob (map (under k) (flat_rel nested)) R
            = (Ok (define_own k (JObj nested) R), [])"
      using key c flat_rel_not_Nil [OF nested(4) nested(1)] k_fresh inner
      by (intro unflatten_under [where ob' = ob]) (simp_all add: key_ok_def nested(2))
    then have "unflatten_loop [] ob (map (under k) (flat_rel nested) @ flat_rel rest) R
            = unflatten_loop [] ob (flat_rel rest) (define_own k (JObj nested) R)"
      by (rule unflatten_loop_append)
    with tail v show ?thesis by (simp add: build_Cons)
  qed
qed

lemma record_ok_keys: "record_ok es \<Longrightarrow> k \<in> fst ` set es \<Longrightarrow> key_ok k"
  by (induction es rule: record_ok.induct) auto

lemma record_ok_append: "record_ok (xs @ ys) = (record_ok xs \<and> record_ok ys)"
  by (induction xs rule: record_ok.induct) auto

lemma record_ok_filter: "record_ok es \<Longrightarrow> record_ok (filter Q es)"
  by (induction es rule: record_ok.induct) auto

lemma flat_rel_append: "flat_rel (xs @ ys) = flat_rel xs @ flat_rel ys"
  by (induction xs rule: flat_rel.induct) (auto split: jsval.splits)

lemma flat_rel_scalars: "list_all (\<lambda>e. \<not> is_object (snd e)) xs \<Longrightarrow> flat_rel xs = xs"
  by (induction xs rule: flat_rel.induct) (auto simp: is_object_def split: jsval.splits)

declare flat_rel.simps(2) [simp del]

lemma first_segment_plain: "46 \<notin> set k \<Longrightarrow> takeWhile (\<lambda>c. c \<noteq> 46) k = k"
  by (simp add: takeWhile_eq_all_conv) metis

lemma first_segment_under:
  "46 \<notin> set k \<Longrightarrow> takeWhile (\<lambda>c. c \<noteq> 46) (fst (under k e)) = k"
  by (induction k) (simp_all add: under_def js_def)

lemma flat_rel_first_segment:
  "record_ok es \<Longrightarrow> key \<in> fst ` set (flat_rel es) \<Longrightarrow>
   takeWhile (\<lambda>c. c \<noteq> 46) key \<in> fst ` set es"
proof (induction es rule: record_ok.induct)
  case 1
  then show ?case by simp
next
  case (2 k v rest)
  from "2.prems"(1) have k: "46 \<notin> set k" and rest: "record_ok rest"
    by (auto simp: key_ok_def)
  show ?case
  proof (cases "key \<in> fst ` set (flat_rel rest)")
    case True
    with "2.IH"(2) rest show ?thesis by simp
  next
    case False
    show ?thesis
    proof (cases "is_object v")
      case False
      with \<open>key \<notin> fst ` set (flat_rel rest)\<close> "2.prems"(2) have "key = k"
        by (simp add: flat_rel_scalar)
      with k show ?thesis by (simp add: first_segment_plain)
    next
      case True
      then obtain nested where v: "v = JObj nested"
        by (cases v) (simp_all add: is_object_def)
      with \<open>key \<notin> fst ` set (flat_rel rest)\<close> "2.prems"(2)
      obtain e where "key = fst (under k e)" by (auto simp: flat_rel_nested)
      with k show ?thesis by (simp add: first_segment_under)
    qed
  qed
qed

lemma under_inj: "fst (under k a) = fst (under k b) \<Longrightarrow> fst a = fst b"
  by (simp add: under_def)

lemma flat_rel_distinct:
  "record_ok es \<Longrightarrow> distinct (map fst es) \<Longrightarrow> distinct (map fst (flat_rel es))"
proof (induction es rule: record_ok.induct)
  case 1
  then show ?case by simp
next
  case (2 k v rest)
  from "2.prems" have k: "46 \<notin> set k" and rest: "record_ok rest"
    and k_new: "k \<notin> fst ` set rest" and d: "distinct (map fst rest)"
    by (auto simp: key_ok_def)
  have tail: "distinct (map fst (flat_rel rest))"
    using rest d by (rule "2.IH"(2))
  have apart: "key \<notin> fst ` set (flat_rel rest)" if "takeWhile (\<lambda>c. c \<noteq> 46) key = k" for key
    using flat_rel_first_segment [OF rest, of key] that k_new by auto
  show ?case
  proof (cases "is_object v")
    case False
    have "k \<notin> fst ` set (flat_rel rest)"
      using apart [of k] k by (simp add: first_segment_plain)
    with tail False show ?thesis by (simp add: flat_rel_scalar)
  next
    case True
    then obtain nested where v: "v = JObj nested"
      by (cases v) (simp_all add: is_object_def)
    with "2.prems"(1) have "record_ok nested" and "js_object nested" by simp_all
    then have "distinct (map fst (flat_rel nested))"
      using "2.IH"(1) v by (simp add: js_object_def)
    then have inner: "distinct (map fst (map (under k) (flat_rel nested)))"
      by (simp add: distinct_map inj_on_def under_def)
    have out: "fst (under k e) \<notin> fst ` set (flat_rel rest)" for e
      using apart [of "fst (under k e)"] k by (simp add: first_segment_under)
    have "fst ` set (map (under k) (flat_rel nested)) \<inter> fst ` set (flat_rel rest) = {}"
    proof (rule ccontr)
      assume "fst ` set (map (under k) (flat_rel nested)) \<inter> fst ` set (flat_rel rest) \<noteq> {}"
      then obtain x where "x \<in> fst ` set (map (under k) (flat_rel nested))"
          and x: "x \<in> fst ` set (flat_rel rest)" by blast
      then obtain e where "x = fst (under k e)" by auto
      with x out [of e] show False by simp
    qed
    with inner tail v show ?thesis by (simp add: flat_rel_nested image_image)
  qed
qed

lemma dotted_not_index:
  assumes "46 \<in> set key"
  shows "\<not> is_array_index key"
proof
  assume "is_array_index key"
  then have "list_all is_digit key" by (simp add: is_array_index_def)
  with assms have "is_digit 46" unfolding list_all_iff by blast
  then show False by (simp add: is_digit_def)
qed

lemma dotted_not_proto: "46 \<in> set key \<Longrightarrow> key \<noteq> js ''__proto__''"
  by (auto simp: js_def)

lemma under_dotted: "46 \<in> set (fst (under k e))"
  by (simp add: under_def js_def)

lemma object_assign_build:
  "\<forall>e\<in>set sub. fst e \<noteq> js ''__proto__'' \<Longrightarrow> object_assign acc sub = Ok (build sub acc)"
proof (induction sub arbitrary: acc)
  case Nil
  then show ?case by simp
next
  case (Cons e sub)
  obtain k v where e: "e = (k, v)" by (cases e)
  with Cons show ?case by (simp add: set_property_def build_Cons)
qed

lemma object_assign_dotted:
  assumes "list_all (\<lambda>e. 46 \<in> set (fst e)) sub" and "distinct (map fst sub)"
    and "\<forall>e\<in>set sub. map_of acc (fst e) = None"
  shows "object_assign acc sub = Ok (acc @ sub)"
proof -
  have "object_assign acc sub = Ok (build sub acc)"
    using assms(1) by (intro object_assign_build) (auto simp: list_all_iff dotted_not_proto)
  moreover have "build sub acc = acc @ sub"
    using assms by (intro build_plain_keys) (auto simp: list_all_iff dotted_not_index)
  ultimately show ?thesis by simp
qed

lemma under_under: "under p (under k e) = under (p @ js ''.'' @ k) e"
  by (simp add: under_def)

lemma callable_record: "record_ok es \<Longrightarrow> hasOwnProperty_callable [] es"
proof -
  assume ok: "record_ok es"
  have "js ''hasOwnProperty'' \<notin> fst ` set es"
    using record_ok_keys [OF ok, of "js ''hasOwnProperty''"] by (auto simp: key_ok_def)
  then show ?thesis by (simp add: callable_pristine map_of_eq_None_iff)
qed

subsection \<open>flattenObject computes the flat form\<close>

lemma flatten_loop_scalar:
  "\<not> is_object v \<Longrightarrow> hasOwnProperty_callable P ob \<Longrightarrow>
   flatten_loop P ob ((k, v) # rest) prefix acc =
     (case set_property acc (new_key prefix k) v of
        Ok acc' \<Rightarrow> flatten_loop P ob rest prefix acc'
      | Throw e \<Rightarrow> Throw e
      | Unmodelled \<Rightarrow> Unmodelled)"
  by (cases v) (simp_all add: is_object_def)

lemma flatten_loop_nested:
  "hasOwnProperty_callable P ob \<Longrightarrow>
   flatten_loop P ob ((k, JObj nested) # rest) prefix acc =
     (case flatten_loop P nested nested (new_key prefix k) [] of
        Ok sub \<Rightarrow>
          (case object_assign acc sub of
             Ok acc' \<Rightarrow> flatten_loop P ob rest prefix acc'
           | Throw e \<Rightarrow> Throw e
           | Unmodelled \<Rightarrow> Unmodelled)
      | Throw e \<Rightarrow> Throw e
      | Unmodelled \<Rightarrow> Unmodelled)"
  by simp

lemma under_distinct:
  "distinct (map fst xs) \<Longrightarrow> distinct (map fst (map (under p) xs))"
  by (simp add: distinct_map inj_on_def under_def)

lemma set_property_dotted:
  assumes "46 \<in> set key" and "key \<notin> fst ` set acc"
  shows "set_property acc key v = Ok (acc @ [(key, v)])"
  using assms
  by (simp add: set_property_def dotted_not_proto define_own_append dotted_not_index
      map_of_eq_None_iff)

lemma flatten_nested:
  "record_ok es \<Longrightarrow> distinct (map fst es) \<Longrightarrow> prefix \<noteq> [] \<Longrightarrow> hasOwnProperty_callable [] ob \<Longrightarrow>
   fst ` set acc \<inter> fst ` set (map (under prefix) (flat_rel es)) = {} \<Longrightarrow>
   flatten_loop [] ob es prefix acc = Ok (acc @ map (under prefix) (flat_rel es))"
proof (induction es arbitrary: acc prefix ob rule: record_ok.induct)
  case 1
  then show ?case by simp
next
  case (2 k v rest)
  note c = "2.prems"(4) and p = "2.prems"(3)
  from "2.prems"(1,2) have rest: "record_ok rest" "distinct (map fst rest)"
    by auto
  have nk: "new_key prefix k = fst (under prefix (k, v))"
    using p by (simp add: new_key_def under_def)
  have D: "distinct (map fst (map (under prefix) (flat_rel ((k, v) # rest))))"
    using "2.prems"(1,2) by (intro under_distinct flat_rel_distinct)
  show ?case
  proof (cases "is_object v")
    case False
    then have fr: "flat_rel ((k, v) # rest) = (k, v) # flat_rel rest"
      by (rule flat_rel_scalar)
    let ?e = "under prefix (k, v)"
    have e: "?e = (new_key prefix k, v)" using nk by (simp add: under_def)
    have "fst ?e \<notin> fst ` set acc"
      using "2.prems"(5) unfolding fr by auto
    then have put: "set_property acc (new_key prefix k) v = Ok (acc @ [?e])"
      using set_property_dotted [of "fst ?e" acc v] under_dotted [of prefix "(k, v)"] e by simp
    have "fst ` set (acc @ [?e]) \<inter> fst ` set (map (under prefix) (flat_rel rest)) = {}"
      using "2.prems"(5) D unfolding fr by auto
    then have "flatten_loop [] ob rest prefix (acc @ [?e])
                 = Ok ((acc @ [?e]) @ map (under prefix) (flat_rel rest))"
      using rest p c by (intro "2.IH"(2)) simp_all
    then show ?thesis
      unfolding fr flatten_loop_scalar [OF False c] put by simp
  next
    case True
    then obtain nested where v: "v = JObj nested"
      by (cases v) (simp_all add: is_object_def)
    with "2.prems"(1) have nested: "record_ok nested" "js_object nested" by simp_all
    have fr: "flat_rel ((k, v) # rest) = map (under k) (flat_rel nested) @ flat_rel rest"
      using v by (simp add: flat_rel_nested)
    let ?sub = "map (under prefix) (map (under k) (flat_rel nested))"
    have nk': "new_key prefix k = prefix @ js ''.'' @ k"
      using p by (simp add: new_key_def)
    have sub_eq: "map (under (new_key prefix k)) (flat_rel nested) = ?sub"
      by (simp add: nk' under_under)
    have "flatten_loop [] nested nested (new_key prefix k) []
            = Ok ([] @ map (under (new_key prefix k)) (flat_rel nested))"
      using v nested callable_record [OF nested(1)]
      by (intro "2.IH"(1)) (simp_all add: js_object_def nk')
    then have inner: "flatten_loop [] nested nested (new_key prefix k) [] = Ok ?sub"
      by (simp add: sub_eq)
    have "list_all (\<lambda>e. 46 \<in> set (fst e)) ?sub"
      by (simp add: list_all_iff under_dotted)
    moreover have "distinct (map fst ?sub)"
      using nested by (intro under_distinct flat_rel_distinct) (simp_all add: js_object_def)
    moreover have "\<forall>e\<in>set ?sub. map_of acc (fst e) = None"
      using "2.prems"(5) unfolding fr by (auto simp: map_of_eq_None_iff)
    ultimately have assign: "object_assign acc ?sub = Ok (acc @ ?sub)"
      by (rule object_assign_dotted)
    have "fst ` set (acc @ ?sub) \<inter> fst ` set (map (under prefix) (flat_rel rest)) = {}"
      using "2.prems"(5) D unfolding fr by auto
    then have "flatten_loop [] ob rest prefix (acc @ ?sub)
                 = Ok ((acc @ ?sub) @ map (under prefix) (flat_rel rest))"
      using rest p c by (intro "2.IH"(2)) simp_all
    then show ?thesis
      unfolding fr v flatten_loop_nested [OF c] inner using assign by (simp add: flat_rel_nested)
  qed
qed

lemma insert_index_mid:
  "\<forall>e\<in>set A. is_array_index (fst e) \<and> digits_val (fst e) < digits_val k \<Longrightarrow>
   \<forall>e\<in>set B. \<not> is_array_index (fst e) \<Longrightarrow>
   insert_index k v (A @ B) = A @ (k, v) # B"
proof (induction A)
  case Nil
  then show ?case by (cases B) auto
next
  case (Cons a A)
  then show ?case by (cases a) simp
qed

lemma ascending_append_last:
  "ascending_indices (A @ e # B) \<Longrightarrow>
   (\<forall>a\<in>set A. is_array_index (fst a) \<and> digits_val (fst a) < digits_val (fst e))"
  by (auto simp: ascending_indices_def sorted_wrt_append list_all_iff)

lemma disjoint_keys_append:
  assumes "distinct (map fst (xs @ ys))" and "fst ` set A \<inter> fst ` set (xs @ ys) = {}"
  shows "fst ` set (A @ xs) \<inter> fst ` set ys = {}"
proof -
  from assms(1) have "set (map fst xs) \<inter> set (map fst ys) = {}" by simp
  then have "fst ` set xs \<inter> fst ` set ys = {}" by simp
  moreover from assms(2) have "fst ` set A \<inter> fst ` set ys = {}"
    by (simp add: image_Un Int_Un_distrib)
  ultimately show ?thesis by (simp add: image_Un Int_Un_distrib2)
qed

lemma flatten_top:
  "record_ok es \<Longrightarrow> distinct (map fst es) \<Longrightarrow> \<forall>e\<in>set es. is_object (snd e) \<longrightarrow> fst e \<noteq> [] \<Longrightarrow>
   hasOwnProperty_callable [] ob \<Longrightarrow> ascending_indices (Ia @ filter index_scalar es) \<Longrightarrow>
   \<forall>e\<in>set Na. \<not> is_array_index (fst e) \<Longrightarrow>
   fst ` set (Ia @ Na) \<inter> fst ` set (flat_rel es) = {} \<Longrightarrow>
   flatten_loop [] ob es [] (Ia @ Na)
     = Ok ((Ia @ filter index_scalar es) @ (Na @ flat_rel (filter (\<lambda>e. \<not> index_scalar e) es)))"
proof (induction es arbitrary: Ia Na)
  case Nil
  then show ?case by simp
next
  case (Cons e rest)
  obtain k v where e: "e = (k, v)" by (cases e)
  note c = Cons.prems(4)
  from Cons.prems(1,2) e have key: "key_ok k" and rest: "record_ok rest" "distinct (map fst rest)"
    by (auto split: jsval.splits)
  have rest_obj: "\<forall>e\<in>set rest. is_object (snd e) \<longrightarrow> fst e \<noteq> []"
    using Cons.prems(3) by simp
  have D: "distinct (map fst (flat_rel ((k, v) # rest)))"
    using Cons.prems(1,2) e by (intro flat_rel_distinct) simp_all
  have fresh: "fst ` set (Ia @ Na) \<inter> fst ` set (flat_rel ((k, v) # rest)) = {}"
    using Cons.prems(7) e by simp
  have nk: "new_key [] k = k" by (simp add: new_key_def)
  show ?case
  proof (cases "is_object v")
    case False
    then have fr: "flat_rel ((k, v) # rest) = (k, v) # flat_rel rest"
      by (rule flat_rel_scalar)
    have k_fresh: "map_of (Ia @ Na) k = None"
      using fresh unfolding fr by (auto simp: map_of_eq_None_iff)
    have k_rest: "k \<notin> fst ` set (flat_rel rest)"
      using D unfolding fr by auto
    have put: "set_property (Ia @ Na) (new_key [] k) v = Ok (define_own k v (Ia @ Na))"
      using key by (simp add: nk set_property_def key_ok_def)
    show ?thesis
    proof (cases "is_array_index k")
      case True
      then have isc: "index_scalar (k, v)" using False by (simp add: index_scalar_def)
      from Cons.prems(5) e isc have asc: "ascending_indices (Ia @ (k, v) # filter index_scalar rest)"
        by simp
      have "define_own k v (Ia @ Na) = insert_index k v (Ia @ Na)"
        using True k_fresh by (simp add: define_own_def)
      also have "\<dots> = Ia @ (k, v) # Na"
        using ascending_append_last [OF asc] Cons.prems(6) by (intro insert_index_mid) simp_all
      finally have step: "define_own k v (Ia @ Na) = (Ia @ [(k, v)]) @ Na" by simp
      have "flatten_loop [] ob rest [] ((Ia @ [(k, v)]) @ Na)
              = Ok (((Ia @ [(k, v)]) @ filter index_scalar rest)
                    @ (Na @ flat_rel (filter (\<lambda>e. \<not> index_scalar e) rest)))"
        using rest rest_obj c asc Cons.prems(6) fresh k_rest unfolding fr
        by (intro Cons.IH) auto
      then show ?thesis
        unfolding e flatten_loop_scalar [OF False c] put step using isc by simp
    next
      case idx: False
      then have nis: "\<not> index_scalar (k, v)" by (simp add: index_scalar_def)
      have step: "define_own k v (Ia @ Na) = Ia @ (Na @ [(k, v)])"
        using idx k_fresh by (simp add: define_own_append)
      have "flatten_loop [] ob rest [] (Ia @ (Na @ [(k, v)]))
              = Ok ((Ia @ filter index_scalar rest)
                    @ ((Na @ [(k, v)]) @ flat_rel (filter (\<lambda>e. \<not> index_scalar e) rest)))"
        using rest rest_obj c Cons.prems(5,6) e nis idx fresh k_rest unfolding fr
        by (intro Cons.IH) auto
      then show ?thesis
        unfolding e flatten_loop_scalar [OF False c] put step using nis False
        by (simp add: flat_rel_scalar)
    qed
  next
    case True
    then obtain nested where v: "v = JObj nested"
      by (cases v) (simp_all add: is_object_def)
    with Cons.prems(1) e have nested: "record_ok nested" "js_object nested" by simp_all
    have k_ne: "k \<noteq> []" using Cons.prems(3) e True by simp
    have nis: "\<not> index_scalar (k, v)" using True by (simp add: index_scalar_def)
    have fr: "flat_rel ((k, v) # rest) = map (under k) (flat_rel nested) @ flat_rel rest"
      using v by (simp add: flat_rel_nested)
    let ?sub = "map (under k) (flat_rel nested)"
    have "flatten_loop [] nested nested k [] = Ok ([] @ ?sub)"
      using nested k_ne callable_record [OF nested(1)]
      by (intro flatten_nested) (simp_all add: js_object_def)
    then have inner: "flatten_loop [] nested nested (new_key [] k) [] = Ok ?sub"
      by (simp add: nk)
    have "list_all (\<lambda>e. 46 \<in> set (fst e)) ?sub"
      by (simp add: list_all_iff under_dotted)
    moreover have "distinct (map fst ?sub)"
      using nested by (intro under_distinct flat_rel_distinct) (simp_all add: js_object_def)
    moreover have "\<forall>e\<in>set ?sub. map_of (Ia @ Na) (fst e) = None"
      using fresh unfolding fr by (auto simp: map_of_eq_None_iff)
    ultimately have assign: "object_assign (Ia @ Na) ?sub = Ok (Ia @ (Na @ ?sub))"
      using object_assign_dotted [of ?sub "Ia @ Na"] by simp
    have plain: "\<forall>e\<in>set (Na @ ?sub). \<not> is_array_index (fst e)"
      using Cons.prems(6) by (auto simp: dotted_not_index under_dotted)
    have "fst ` set ((Ia @ Na) @ ?sub) \<inter> fst ` set (flat_rel rest) = {}"
      using D fresh unfolding fr by (rule disjoint_keys_append)
    then have "fst ` set (Ia @ (Na @ ?sub)) \<inter> fst ` set (flat_rel rest) = {}"
      by simp
    then have "flatten_loop [] ob rest [] (Ia @ (Na @ ?sub))
              = Ok ((Ia @ filter index_scalar rest)
                    @ ((Na @ ?sub) @ flat_rel (filter (\<lambda>e. \<not> index_scalar e) rest)))"
      using rest rest_obj c Cons.prems(5) e nis plain
      by (intro Cons.IH) simp_all
    then show ?thesis
      unfolding e v flatten_loop_nested [OF c] inner using nis v assign
      by (simp add: flat_rel_nested)
  qed
qed


lemma ascending_filter: "ascending_indices I \<Longrightarrow> ascending_indices (filter Q I)"
  by (auto simp: ascending_indices_def list_all_iff sorted_wrt_filter)

lemma filter_plain_part:
  "list_all (\<lambda>e. \<not> is_array_index (fst e)) N \<Longrightarrow> filter index_scalar N = []"
  by (auto simp: list_all_iff index_scalar_def filter_empty_conv)

lemma filter_partition_distinct:
  "distinct (map fst xs) \<Longrightarrow> distinct (map fst (filter Q xs @ filter (\<lambda>e. \<not> Q e) xs))"
  by (induction xs) auto

lemma callable_flat_rel:
  assumes "record_ok es"
  shows "hasOwnProperty_callable [] (flat_rel es)"
proof -
  have "js ''hasOwnProperty'' \<notin> fst ` set (flat_rel es)"
  proof
    assume "js ''hasOwnProperty'' \<in> fst ` set (flat_rel es)"
    then have "takeWhile (\<lambda>c. c \<noteq> 46) (js ''hasOwnProperty'') \<in> fst ` set es"
      using assms by (intro flat_rel_first_segment)
    moreover have "takeWhile (\<lambda>c. c \<noteq> 46) (js ''hasOwnProperty'') = js ''hasOwnProperty''"
      by (simp add: js_def)
    ultimately have "key_ok (js ''hasOwnProperty'')"
      using record_ok_keys [OF assms] by simp
    then show False by (simp add: key_ok_def)
  qed
  then show ?thesis by (simp add: callable_pristine map_of_eq_None_iff)
qed

subsection \<open>The two transforms with nothing added to the prototype\<close>

lemma named_nested:
  assumes "distinct (map fst r)" and "empty_key_is_scalar r"
  shows "\<forall>e\<in>set r. is_object (snd e) \<longrightarrow> fst e \<noteq> []"
proof (intro ballI impI)
  fix e assume e: "e \<in> set r" and ob: "is_object (snd e)"
  show "fst e \<noteq> []"
  proof
    assume "fst e = []"
    with e assms(1) have "map_of r [] = Some (snd e)"
      by (metis map_of_is_SomeI prod.collapse)
    with ob assms(2) show False
      by (cases "snd e") (simp_all add: empty_key_is_scalar_def is_object_def)
  qed
qed

lemma flatten_record:
  assumes "js_object r" and "record_ok r" and "empty_key_is_scalar r"
  shows "flatten_loop [] r r [] []
           = Ok (flat_rel (filter index_scalar r @ filter (\<lambda>e. \<not> index_scalar e) r))"
proof -
  from assms(1) obtain I N where parts: "r = I @ N" "ascending_indices I"
      "list_all (\<lambda>e. \<not> is_array_index (fst e)) N"
    by (rule js_object_parts)
  from assms(1) have d: "distinct (map fst r)" by (simp add: js_object_def)
  have "ascending_indices (filter index_scalar r)"
    using parts by (simp add: filter_plain_part ascending_filter)
  then have "flatten_loop [] r r [] ([] @ [])
          = Ok (([] @ filter index_scalar r) @ ([] @ flat_rel (filter (\<lambda>e. \<not> index_scalar e) r)))"
    using assms(2) d named_nested [OF d assms(3)] callable_record [OF assms(2)]
    by (intro flatten_top) simp_all
  moreover have "flat_rel (filter index_scalar r) = filter index_scalar r"
    by (rule flat_rel_scalars) (simp add: list_all_iff index_scalar_def)
  ultimately show ?thesis
    by (simp add: flat_rel_append)
qed

lemma unflatten_record:
  assumes "js_object r" and "record_ok r"
  shows "unflatten_loop []
           (flat_rel (filter index_scalar r @ filter (\<lambda>e. \<not> index_scalar e) r))
           (flat_rel (filter index_scalar r @ filter (\<lambda>e. \<not> index_scalar e) r)) []
         = (Ok r, [])"
proof -
  from assms(1) obtain I N where parts: "r = I @ N" "ascending_indices I"
      "list_all (\<lambda>e. \<not> is_array_index (fst e)) N"
    by (rule js_object_parts)
  from assms(1) have d: "distinct (map fst r)" by (simp add: js_object_def)
  let ?L = "filter index_scalar I @ filter (\<lambda>e. \<not> index_scalar e) I"
  let ?r' = "filter index_scalar r @ filter (\<lambda>e. \<not> index_scalar e) r"
  have r': "?r' = ?L @ N"
    using parts(3) by (simp add: parts(1) filter_plain_part) (simp add: list_all_iff index_scalar_def)
  have ok': "record_ok ?r'"
    using assms(2) by (simp add: record_ok_append record_ok_filter)
  have d': "distinct (map fst ?r')"
    using d by (rule filter_partition_distinct)
  have "unflatten_loop [] (flat_rel ?r') (flat_rel ?r') [] = (Ok (build ?r' []), [])"
    using callable_flat_rel [OF ok'] ok' d' by (rule unflatten_flat_rel) simp
  moreover have "build ?r' [] = r"
  proof -
    have "build (?L @ N) [] = I @ N"
      using d parts filter_partition_distinct [of I index_scalar]
      by (intro build_permuted) auto
    then show ?thesis unfolding r' by (simp add: parts(1))
  qed
  ultimately show ?thesis by simp
qed

subsection \<open>What was added to the prototype\<close>

text \<open>
  A run of either loop that succeeds with nothing added to \<open>Object.prototype\<close> succeeds
  with the same result whatever was added, as long as \<open>hasOwnProperty\<close> is still the
  method and every segment the walk reads finds nothing truthy there.
\<close>

lemma callable_iff:
  "hasOwnProperty_callable P ob
     = (map_of ob (js ''hasOwnProperty'') = None \<and> map_of P (js ''hasOwnProperty'') = None)"
  by (simp add: hasOwnProperty_callable_def get_property_def js_def object_prototype_methods_def
      split: option.splits)

lemma flatten_loop_frame:
  assumes P: "map_of P (js ''hasOwnProperty'') = None"
  shows "map_of ob (js ''hasOwnProperty'') = None \<Longrightarrow>
         flatten_loop [] ob es prefix acc = Ok flat \<Longrightarrow>
         flatten_loop P ob es prefix acc = Ok flat"
proof (induction es arbitrary: ob prefix acc flat rule: flat_rel.induct)
  case 1
  then show ?case using P by (simp add: callable_iff)
next
  case (2 k v rest)
  have c: "hasOwnProperty_callable P ob" "hasOwnProperty_callable [] ob"
    using P "2.prems"(1) by (simp_all add: callable_iff)
  show ?case
  proof (cases v)
    case (JObj nested)
    from "2.prems"(2) c JObj obtain sub acc' where
        inner: "flatten_loop [] nested nested (new_key prefix k) [] = Ok sub"
        and assign: "object_assign acc sub = Ok acc'"
        and rest: "flatten_loop [] ob rest prefix acc' = Ok flat"
      by (auto split: outcome.splits)
    have own_nested: "map_of nested (js ''hasOwnProperty'') = None"
    proof (cases nested)
      case Nil
      then show ?thesis by simp
    next
      case (Cons e es)
      with inner have "hasOwnProperty_callable [] nested"
        using flatten_loop_Ok_callable by blast
      then show ?thesis by (simp add: callable_iff)
    qed
    have "flatten_loop P nested nested (new_key prefix k) [] = Ok sub"
      using JObj own_nested inner by (rule "2.IH"(6))
    moreover have "flatten_loop P ob rest prefix acc' = Ok flat"
      using JObj "2.prems"(1) rest by (rule "2.IH"(7))
    ultimately show ?thesis using c JObj assign by simp
  next
    case JNull
    with "2.prems" c "2.IH" show ?thesis by (auto split: outcome.splits)
  next
    case (JBool b)
    with "2.prems" c "2.IH" show ?thesis by (auto split: outcome.splits)
  next
    case (JNum n)
    with "2.prems" c "2.IH" show ?thesis by (auto split: outcome.splits)
  next
    case (JStr s)
    with "2.prems" c "2.IH" show ?thesis by (auto split: outcome.splits)
  next
    case (JArr xs)
    with "2.prems" c "2.IH" show ?thesis by (auto split: outcome.splits)
  qed
qed

lemma landing_frame:
  assumes "k \<noteq> js ''__proto__''" and "falsy_on_prototype P k"
    and "landing_of (get_property [] R k) \<noteq> Beyond"
  shows "landing_of (get_property P R k) = landing_of (get_property [] R k)"
    and "landing_of (get_property [] R k) \<noteq> OnPrototype"
  using assms
  by (auto simp: get_property_def landing_of_def falsy_on_prototype_def
      split: option.splits if_splits jsval.splits)

lemma walk_frame:
  assumes "\<forall>k\<in>set ks. k \<noteq> js ''__proto__'' \<and> falsy_on_prototype P k"
    and "walk [] R ks l v = Ok (R', [])"
  shows "walk P R ks l v = Ok (R', P)"
  using assms
proof (induction ks arbitrary: R R')
  case Nil
  then show ?case by (auto split: outcome.splits)
next
  case (Cons k ks)
  from Cons.prems(1) have k: "k \<noteq> js ''__proto__''" "falsy_on_prototype P k"
    and ks: "\<forall>k\<in>set ks. k \<noteq> js ''__proto__'' \<and> falsy_on_prototype P k"
    by simp_all
  from Cons.prems(2) have nb: "landing_of (get_property [] R k) \<noteq> Beyond"
    by auto
  note same = landing_frame [OF k nb]
  show ?case
  proof (cases "landing_of (get_property [] R k)")
    case Create
    with Cons.prems(2) obtain cur child where
        cur: "set_property R k (JObj []) = Ok cur"
        and inner: "walk [] [] ks l v = Ok (child, [])"
        and R': "R' = replace_own k (JObj child) cur"
      by (auto simp: attach_def split: outcome.splits)
    from Cons.IH [OF ks inner] have "walk P [] ks l v = Ok (child, P)" .
    with Create same cur R' show ?thesis by (simp add: attach_def)
  next
    case (Descend c)
    with Cons.prems(2) obtain child where
        inner: "walk [] c ks l v = Ok (child, [])"
        and R': "R' = replace_own k (JObj child) R"
      by (auto simp: attach_def split: outcome.splits)
    from Cons.IH [OF ks inner] have "walk P c ks l v = Ok (child, P)" .
    with Descend same R' show ?thesis by (simp add: attach_def)
  next
    case OnPrimitive
    with Cons.prems(2) same show ?thesis by (auto split: outcome.splits)
  next
    case OnPrototype
    with same show ?thesis by simp
  next
    case Beyond
    with nb show ?thesis by simp
  qed
qed

lemma unflatten_loop_frame:
  assumes c: "hasOwnProperty_callable P ob"
  shows "\<forall>e\<in>set L. \<forall>k\<in>set (butlast (js_split 46 (fst e))).
           k \<noteq> js ''__proto__'' \<and> falsy_on_prototype P k \<Longrightarrow>
         unflatten_loop [] ob L R = (Ok C, []) \<Longrightarrow>
         unflatten_loop P ob L R = (Ok C, P)"
proof (induction L arbitrary: R)
  case Nil
  then show ?case using c by (auto split: if_splits)
next
  case (Cons e L)
  obtain key v where e: "e = (key, v)" by (cases e)
  have "unflatten_loop [] ob ((key, v) # L) R = (Ok C, [])"
    using Cons.prems(2) unfolding e .
  then obtain R1 where
      w: "walk [] R (butlast (js_split 46 key)) (last (js_split 46 key)) v = Ok (R1, [])"
      and rest: "unflatten_loop [] ob L R1 = (Ok C, [])"
    by (rule unflatten_loop_Cons_Ok)
  have "\<forall>k\<in>set (butlast (js_split 46 key)). k \<noteq> js ''__proto__'' \<and> falsy_on_prototype P k"
    using Cons.prems(1) e by simp
  then have "walk P R (butlast (js_split 46 key)) (last (js_split 46 key)) v = Ok (R1, P)"
    using w by (rule walk_frame)
  moreover have "unflatten_loop P ob L R1 = (Ok C, P)"
    using Cons.prems(1) rest by (intro Cons.IH) simp_all
  ultimately show ?case using c e by simp
qed

lemma nested_keys_free_append:
  "nested_keys_free P (xs @ ys) = (nested_keys_free P xs \<and> nested_keys_free P ys)"
  by (induction xs rule: flat_rel.induct) (auto split: jsval.splits)

lemma nested_keys_free_filter: "nested_keys_free P es \<Longrightarrow> nested_keys_free P (filter Q es)"
  by (induction es rule: flat_rel.induct) (auto split: jsval.splits)

lemma butlast_split_under:
  "46 \<notin> set k \<Longrightarrow>
   butlast (js_split 46 (fst (under k e))) = k # butlast (js_split 46 (fst e))"
  by (simp add: under_def split_under)

lemma flat_rel_segments:
  "record_ok es \<Longrightarrow> nested_keys_free P es \<Longrightarrow> e \<in> set (flat_rel es) \<Longrightarrow>
   s \<in> set (butlast (js_split 46 (fst e))) \<Longrightarrow>
   s \<noteq> js ''__proto__'' \<and> falsy_on_prototype P s"
proof (induction es arbitrary: e s rule: record_ok.induct)
  case 1
  then show ?case by simp
next
  case (2 k v rest)
  from "2.prems"(1,2) have key: "key_ok k" and rest: "record_ok rest" "nested_keys_free P rest"
    by (auto split: jsval.splits)
  show ?case
  proof (cases "e \<in> set (flat_rel rest)")
    case True
    with "2.IH"(2) rest "2.prems"(4) show ?thesis by blast
  next
    case False
    show ?thesis
    proof (cases "is_object v")
      case scalar: False
      with False "2.prems"(3) have "e = (k, v)" by (simp add: flat_rel_scalar)
      with key "2.prems"(4) show ?thesis by (simp add: key_ok_def js_split_no_sep)
    next
      case True
      then obtain nested where v: "v = JObj nested"
        by (cases v) (simp_all add: is_object_def)
      with False "2.prems"(3) obtain e' where e': "e' \<in> set (flat_rel nested)"
          and e: "e = under k e'"
        by (auto simp: flat_rel_nested)
      from v "2.prems"(1,2) have nested: "nested \<noteq> []" "k \<notin> set object_prototype_methods"
          "js_object nested" "record_ok nested" "nested_keys_free P nested"
          "falsy_on_prototype P k"
        by simp_all
      from key have "46 \<notin> set k" by (simp add: key_ok_def)
      with "2.prems"(4) e have "s = k \<or> s \<in> set (butlast (js_split 46 (fst e')))"
        by (simp add: butlast_split_under)
      then show ?thesis
      proof
        assume "s = k"
        with key nested(6) show ?thesis by (simp add: key_ok_def)
      next
        assume "s \<in> set (butlast (js_split 46 (fst e')))"
        with "2.IH"(1) v key nested e' show ?thesis by blast
      qed
    qed
  qed
qed

subsection \<open>Where the round trip fails\<close>

text \<open>
  Claim C1, as stated, at the record \<open>{a: {}}\<close>, whose only key contains no dot:
  \<open>flattenObject\<close> returns the empty flat record and \<open>unflattenObject\<close> returns the empty
  record, which is not the original.
\<close>

theorem round_trip_loses_empty_record:
  "round_trip pristine [(js ''a'', JObj [])] = (Ok [], pristine)
   \<and> (Ok [], pristine) \<noteq> (Ok [(js ''a'', JObj [])], pristine)"
  by (simp add: eval_defs)

text \<open>
  The other records without a dot in a key that do not come back: a nested record
  under the empty key of the top level loses that key; a key \<open>__proto__\<close> is handed to
  the inherited setter and lost; a key \<open>hasOwnProperty\<close> makes \<open>flattenObject\<close> throw;
  and a nested record under a key that an earlier request has added to
  \<open>Object.prototype\<close> with a truthy value is not created, the walk takes the inherited
  value instead.
\<close>

lemma round_trip_loses_empty_key:
  "round_trip pristine [([], JObj [(js ''b'', JNum 1)])] = (Ok [(js ''b'', JNum 1)], pristine)"
  by (simp add: eval_defs)

lemma round_trip_loses_proto_key:
  "round_trip pristine [(js ''__proto__'', JNum 1)] = (Ok [], pristine)"
  by (simp add: eval_defs)

lemma round_trip_throws_on_hasOwnProperty:
  "round_trip pristine [(js ''hasOwnProperty'', JNum 1)] = (Throw TypeError, pristine)"
  by (simp add: eval_defs)

lemma round_trip_reads_inherited_value:
  "round_trip [(js ''a'', JNum 5)] [(js ''a'', JObj [(js ''b'', JNum 1)])]
     = (Throw TypeError, [(js ''a'', JNum 5)])"
  by (simp add: eval_defs)

subsection \<open>The round-trip law\<close>

text \<open>
  Claim C1, amended. Let \<open>r\<close> be an object as JavaScript enumerates it, in which on every
  level no key contains a dot or is \<open>__proto__\<close> or \<open>hasOwnProperty\<close>, every nested
  record is an object of the same kind, is not empty and does not stand under the name
  of a method of \<open>Object.prototype\<close>, and the empty key of the top level holds no nested
  record. Let \<open>P\<close> be what the process has added to \<open>Object.prototype\<close> so far, with
  \<open>hasOwnProperty\<close> not overwritten and no truthy value under a key that holds a nested
  record in \<open>r\<close>; a process that has added nothing is one such state. Then
  \<open>unflattenObject(flattenObject(r))\<close> is \<open>r\<close>, with its keys in the same order, and
  \<open>Object.prototype\<close> is left as it was. Values that are arrays are carried as they are.
\<close>

theorem round_trip_of_plain_records:
  assumes "js_object r" and "record_ok r" and "empty_key_is_scalar r" and "prototype_allows P r"
  shows "round_trip P r = (Ok r, P)"
proof -
  let ?r' = "filter index_scalar r @ filter (\<lambda>e. \<not> index_scalar e) r"
  from assms(4) have P: "map_of P (js ''hasOwnProperty'') = None" and free: "nested_keys_free P r"
    by (simp_all add: prototype_allows_def)
  have own: "map_of r (js ''hasOwnProperty'') = None"
    using callable_record [OF assms(2)] by (simp add: callable_iff)
  have "flatten_loop P r r [] [] = Ok (flat_rel ?r')"
    using P own flatten_record [OF assms(1,2,3)] by (rule flatten_loop_frame)
  then have flat: "flattenObject P (JObj r) [] = Ok (flat_rel ?r')"
    by (simp add: flattenObject_def own_enumerable_def)
  have ok': "record_ok ?r'"
    using assms(2) by (simp add: record_ok_append record_ok_filter)
  have free': "nested_keys_free P ?r'"
    using free by (simp add: nested_keys_free_append nested_keys_free_filter)
  have c: "hasOwnProperty_callable P (flat_rel ?r')"
    using callable_flat_rel [OF ok'] P by (simp add: callable_iff)
  have "unflatten_loop P (flat_rel ?r') (flat_rel ?r') [] = (Ok r, P)"
    using c
  proof (rule unflatten_loop_frame)
    show "\<forall>e\<in>set (flat_rel ?r'). \<forall>k\<in>set (butlast (js_split 46 (fst e))).
            k \<noteq> js ''__proto__'' \<and> falsy_on_prototype P k"
      using flat_rel_segments [OF ok' free'] by blast
    show "unflatten_loop [] (flat_rel ?r') (flat_rel ?r') [] = (Ok r, [])"
      using assms(1,2) by (rule unflatten_record)
  qed
  with flat show ?thesis
    by (simp add: round_trip_def unflattenObject_def)
qed

theorem round_trip_of_plain_records_witness:
  "js_object [(js ''0'', JObj [(js ''x'', JNum 1)]), (js ''1'', JNum 5), (js ''a'', JStr (js ''A'')),
              (js ''meta'', JObj [(js ''age'', JNum 30), (js ''tags'', JArr [JStr (js ''t''), JNull])])]
   \<and> record_ok [(js ''0'', JObj [(js ''x'', JNum 1)]), (js ''1'', JNum 5), (js ''a'', JStr (js ''A'')),
              (js ''meta'', JObj [(js ''age'', JNum 30), (js ''tags'', JArr [JStr (js ''t''), JNull])])]
   \<and> empty_key_is_scalar [(js ''0'', JObj [(js ''x'', JNum 1)]), (js ''1'', JNum 5),
              (js ''a'', JStr (js ''A'')),
              (js ''meta'', JObj [(js ''age'', JNum 30), (js ''tags'', JArr [JStr (js ''t''), JNull])])]
   \<and> prototype_allows [(js ''a'', JNum 5)]
             [(js ''0'', JObj [(js ''x'', JNum 1)]), (js ''1'', JNum 5), (js ''a'', JStr (js ''A'')),
              (js ''meta'', JObj [(js ''age'', JNum 30), (js ''tags'', JArr [JStr (js ''t''), JNull])])]
   \<and> round_trip [(js ''a'', JNum 5)]
         [(js ''0'', JObj [(js ''x'', JNum 1)]), (js ''1'', JNum 5), (js ''a'', JStr (js ''A'')),
          (js ''meta'', JObj [(js ''age'', JNum 30), (js ''tags'', JArr [JStr (js ''t''), JNull])])]
       = (Ok [(js ''0'', JObj [(js ''x'', JNum 1)]), (js ''1'', JNum 5), (js ''a'', JStr (js ''A'')),
              (js ''meta'', JObj [(js ''age'', JNum 30), (js ''tags'', JArr [JStr (js ''t''), JNull])])],
          [(js ''a'', JNum 5)])"
proof -
  let ?r = "[(js ''0'', JObj [(js ''x'', JNum 1)]), (js ''1'', JNum 5), (js ''a'', JStr (js ''A'')),
             (js ''meta'', JObj [(js ''age'', JNum 30), (js ''tags'', JArr [JStr (js ''t''), JNull])])]"
  have h1: "js_object ?r"
    by (simp add: js_object_def index_order_def is_array_index_def is_digit_def digits_val_def
        js_def)
  have h2: "record_ok ?r"
    by (simp add: js_object_def index_order_def is_array_index_def is_digit_def digits_val_def
        key_ok_def object_prototype_methods_def js_def)
  have h3: "empty_key_is_scalar ?r"
    by (simp add: empty_key_is_scalar_def js_def)
  have h4: "prototype_allows [(js ''a'', JNum 5)] ?r"
    by (simp add: prototype_allows_def falsy_on_prototype_def js_def)
  from round_trip_of_plain_records [OF h1 h2 h3 h4] h1 h2 h3 h4 show ?thesis by simp
qed

end
